theory Spec2Isabelle
  imports Main "HOL-Library.Sublist"
begin

section \<open>The crawl engine of quest4-linux-crawling/index.js\<close>

text \<open>
  A shallow embedding of the classes \<open>CrawlResult\<close>, \<open>URLQueue\<close> and \<open>WebCrawler\<close>.
  Mutable objects become records that are passed in and returned. Everything the
  program obtains from outside itself (the platform's \<open>URL\<close> class, the clock, the
  browser) is a field of the record \<open>platform\<close>, so that every theorem stated for an
  arbitrary platform holds for whatever the browser and the network do.
  Numbers are JavaScript integers well below \<open>2^53\<close>: counters are \<open>nat\<close>, depths
  and times are \<open>int\<close>. The page budget \<open>maxPages\<close> is what \<open>Number.parseInt\<close> returns,
  an integer or \<open>NaN\<close>. The depth limit \<open>maxDepth\<close> is an integer (with \<open>NaN\<close> both
  depth tests of the crawler are false: the seed is crawled and no link is added).
  Logging, and
  closing the page in the \<open>finally\<close> clause, change nothing the crawler reads and are
  left out.
\<close>

subsection \<open>Strings\<close>

definition endsWith :: "string \<Rightarrow> string \<Rightarrow> bool" where
  "endsWith s t = (length t \<le> length s \<and> drop (length s - length t) s = t)"

definition startsWith :: "string \<Rightarrow> string \<Rightarrow> bool" where
  "startsWith s t = (take (length t) s = t)"

fun join :: "string \<Rightarrow> string list \<Rightarrow> string" where
  "join sep [] = []"
| "join sep [x] = x"
| "join sep (x # y # ys) = x @ sep @ join sep (y # ys)"

definition digit_char :: "nat \<Rightarrow> char" where
  "digit_char d = char_of (48 + d)"

function show_nat :: "nat \<Rightarrow> string" where
  "show_nat n = (if n < 10 then [digit_char n] else show_nat (n div 10) @ [digit_char (n mod 10)])"
  by pat_completeness auto
termination
  by (relation "measure (\<lambda>n. n)") auto

declare show_nat.simps [simp del]

definition show_int :: "int \<Rightarrow> string" where
  "show_int i = (if i < 0 then CHR ''-'' # show_nat (nat (- i)) else show_nat (nat i))"

subsection \<open>Numbers\<close>

text \<open>
  What \<open>Number.parseInt\<close> returns: an integer, or \<open>NaN\<close> when the text does not start
  with a number. A comparison with \<open>NaN\<close> is false, whichever way it is written.
\<close>

datatype number = Num int | NaN

fun num_ge :: "int \<Rightarrow> number \<Rightarrow> bool" where
  "num_ge a (Num b) = (a \<ge> b)"
| "num_ge a NaN = False"

fun num_lt :: "int \<Rightarrow> number \<Rightarrow> bool" where
  "num_lt a (Num b) = (a < b)"
| "num_lt a NaN = False"

subsection \<open>Data\<close>

record link =
  href :: string
  link_text :: string

record image =
  src :: string
  alt :: string

text \<open>What \<open>page.evaluate\<close> returns in \<open>extractPageData\<close>.\<close>

record extracted =
  ex_title :: string
  ex_headings :: "(string \<times> string) list"
  ex_links :: "link list"
  ex_images :: "image list"
  ex_tables :: "string list list list"
  ex_textContent :: "string list"
  ex_meta :: "(string \<times> string) list"

text \<open>A queue item \<open>{ url, depth }\<close>; a page record is \<open>{ url, depth, timestamp, ...data }\<close>
  with \<open>statusCode\<close> and \<open>loadTime\<close> assigned afterwards, so it extends the former.\<close>

record frontier_entry =
  url :: string
  depth :: int

record page_data = frontier_entry +
  timestamp :: string
  title :: string
  headings :: "(string \<times> string) list"
  links :: "link list"
  images :: "image list"
  tables :: "string list list list"
  textContent :: "string list"
  meta :: "(string \<times> string) list"
  statusCode :: nat
  loadTime :: int

record error_record =
  error_url :: string
  error :: string
  error_timestamp :: string

datatype js_error = HttpError nat | Thrown string | InvalidURL

fun message :: "js_error \<Rightarrow> string" where
  "message (HttpError code) = ''HTTP '' @ show_nat code"
| "message (Thrown m) = m"
| "message InvalidURL = ''Invalid URL''"

text \<open>One pass through lines 236-271 as far as the browser decides it: either something
  throws up to and including \<open>page.goto\<close>, or navigation completes with a response
  (\<open>None\<close> when \<open>goto\<close> resolves to \<open>null\<close>, else its status) and \<open>extractPageData\<close>
  then throws or returns.\<close>

datatype outcome = Threw string | Navigated "nat option" "string + extracted"

record 'u platform =
  url_new :: "string \<Rightarrow> 'u option"
  url_set_hash :: "'u \<Rightarrow> string \<Rightarrow> 'u"
  url_toString :: "'u \<Rightarrow> string"
  url_hostname :: "'u \<Rightarrow> string"
  now :: "nat \<Rightarrow> int"
  toISOString :: "int \<Rightarrow> string"
  toFixed2 :: "int \<Rightarrow> string"
  browse :: "nat \<Rightarrow> string \<Rightarrow> outcome"

text \<open>
  \<open>url_new\<close> is \<open>new URL(s)\<close>, \<open>None\<close> when it throws; \<open>now n\<close> is the \<open>n\<close>-th reading
  of the clock in a run; \<open>toFixed2 d\<close> is \<open>(d / 1000).toFixed(2)\<close>; \<open>browse n u\<close> is what the
  \<open>n\<close>-th visit attempt of the run meets at \<open>u\<close>.
\<close>

subsection \<open>CrawlResult\<close>

record stats =
  totalPages :: nat
  successfulPages :: nat
  failedPages :: nat
  totalLinks :: nat
  totalImages :: nat
  totalTables :: nat
  duration :: "int option"

record CrawlResult =
  pages :: "page_data list"
  errors :: "error_record list"
  startTime :: int
  endTime :: "int option"
  stats :: stats

definition new_CrawlResult :: "int \<Rightarrow> CrawlResult" where
  "new_CrawlResult t =
     \<lparr>pages = [], errors = [], startTime = t, endTime = None,
      stats = \<lparr>totalPages = 0, successfulPages = 0, failedPages = 0, totalLinks = 0,
               totalImages = 0, totalTables = 0, duration = None\<rparr>\<rparr>"

definition addPage :: "page_data \<Rightarrow> CrawlResult \<Rightarrow> CrawlResult" where
  "addPage pageData r =
     r\<lparr>pages := pages r @ [pageData],
       stats := (stats r)
         \<lparr>totalPages := totalPages (stats r) + 1,
          successfulPages := successfulPages (stats r) + 1,
          totalLinks := totalLinks (stats r) + length (links pageData),
          totalImages := totalImages (stats r) + length (images pageData),
          totalTables := totalTables (stats r) + length (tables pageData)\<rparr>\<rparr>"

text \<open>\<open>addError\<close> reads the clock for the record's timestamp; the reading is the argument \<open>ts\<close>.\<close>

definition addError :: "string \<Rightarrow> js_error \<Rightarrow> string \<Rightarrow> CrawlResult \<Rightarrow> CrawlResult" where
  "addError u err ts r =
     r\<lparr>errors := errors r @ [\<lparr>error_url = u, error = message err, error_timestamp = ts\<rparr>],
       stats := (stats r)
         \<lparr>totalPages := totalPages (stats r) + 1,
          failedPages := failedPages (stats r) + 1\<rparr>\<rparr>"

definition finalize :: "int \<Rightarrow> CrawlResult \<Rightarrow> CrawlResult" where
  "finalize t r =
     r\<lparr>endTime := Some t,
       stats := (stats r)\<lparr>duration := Some (t - startTime r)\<rparr>\<rparr>"

text \<open>A call of the aggregator, for runs of calls in any order.\<close>

datatype result_call = AddPage page_data | AddError string js_error string | Finalize int

fun call :: "CrawlResult \<Rightarrow> result_call \<Rightarrow> CrawlResult" where
  "call r (AddPage p) = addPage p r"
| "call r (AddError u e ts) = addError u e ts r"
| "call r (Finalize t) = finalize t r"

subsection \<open>URLQueue\<close>

text \<open>The \<open>Set\<close> of visited URLs is the list of its elements in insertion order.\<close>

definition Set_add :: "'a \<Rightarrow> 'a list \<Rightarrow> 'a list" where
  "Set_add x xs = (if x \<in> set xs then xs else xs @ [x])"

record URLQueue =
  queue :: "frontier_entry list"
  visited :: "string list"
  maxPages :: number

definition new_URLQueue :: "number \<Rightarrow> URLQueue" where
  "new_URLQueue n = \<lparr>queue = [], visited = [], maxPages = n\<rparr>"

definition normalize :: "'u platform \<Rightarrow> string \<Rightarrow> string option" where
  "normalize E u =
     (case url_new E u of
        None \<Rightarrow> None
      | Some parsed \<Rightarrow>
          let normalized = url_toString E (url_set_hash E parsed '''')
          in Some (if endsWith normalized ''/'' then butlast normalized else normalized))"

text \<open>\<open>!normalized\<close> holds for \<open>null\<close> and for the empty string.\<close>

definition add :: "'u platform \<Rightarrow> string \<Rightarrow> int \<Rightarrow> URLQueue \<Rightarrow> bool \<times> URLQueue" where
  "add E u d q =
     (case normalize E u of
        None \<Rightarrow> (False, q)
      | Some normalized \<Rightarrow>
          if normalized = [] then (False, q)
          else if normalized \<in> set (visited q) then (False, q)
          else if num_ge (int (length (visited q))) (maxPages q) then (False, q)
          else (True, q\<lparr>queue := queue q @ [\<lparr>url = normalized, depth = d\<rparr>],
                         visited := Set_add normalized (visited q)\<rparr>))"

definition next_q :: "URLQueue \<Rightarrow> frontier_entry option \<times> URLQueue" where
  "next_q q = (case queue q of [] \<Rightarrow> (None, q) | item # rest \<Rightarrow> (Some item, q\<lparr>queue := rest\<rparr>))"

definition hasMore :: "URLQueue \<Rightarrow> bool" where
  "hasMore q = (length (queue q) > 0)"


lemma add_cases:
  "add E u d q = (False, q) \<or>
   (\<exists>n. normalize E u = Some n \<and> n \<noteq> [] \<and> n \<notin> set (visited q) \<and>
        \<not> num_ge (int (length (visited q))) (maxPages q) \<and>
        add E u d q = (True, q\<lparr>queue := queue q @ [\<lparr>url = n, depth = d\<rparr>],
                                visited := visited q @ [n]\<rparr>))"
  by (auto simp: add_def Set_add_def split: option.splits)


subsection \<open>WebCrawler\<close>

text \<open>
  The options of a run: \<open>maxDepth\<close> and \<open>maxPages\<close> are the parsed command-line options
  (\<open>crawler_maxPages\<close> is \<open>this.maxPages\<close> of the crawler, which its constructor also
  hands to the queue); \<open>MAX_RETRIES\<close>, \<open>RETRY_DELAY\<close> and \<open>REQUEST_DELAY\<close> are the
  constants of config.js, kept as fields so that the retry policy is proved for
  every setting of them.
\<close>

record crawler_options =
  baseUrl :: string
  maxDepth :: int
  crawler_maxPages :: number
  format :: string
  MAX_RETRIES :: nat
  RETRY_DELAY :: nat
  REQUEST_DELAY :: nat

definition config_js :: "string \<Rightarrow> int \<Rightarrow> int \<Rightarrow> string \<Rightarrow> crawler_options" where
  "config_js u d p f =
     \<lparr>baseUrl = u, maxDepth = d, crawler_maxPages = Num p, format = f,
      MAX_RETRIES = 3, RETRY_DELAY = 2000, REQUEST_DELAY = 500\<rparr>"

text \<open>
  What a run does to the outside world, in order: a visit attempt at a URL (one pass
  through the \<open>try\<close> block of \<open>crawlPage\<close>), a backoff wait and a rate-limit wait, both
  in milliseconds.
\<close>

datatype event = Visit string | Backoff nat | RateLimit nat

text \<open>
  The crawler: \<open>frontier\<close> is \<open>this.queue\<close>, \<open>result\<close> is \<open>this.result\<close>; \<open>ticks\<close> counts the
  clock readings and \<open>attempts\<close> the visit attempts made so far (the indices into
  \<open>now\<close> and \<open>browse\<close>), and \<open>trace\<close> records the events. User-agent rotation, headers
  and request interception do not influence any record or queue and are left out.
\<close>

record WebCrawler =
  frontier :: URLQueue
  result :: CrawlResult
  ticks :: nat
  attempts :: nat
  trace :: "event list"

definition new_WebCrawler :: "'u platform \<Rightarrow> crawler_options \<Rightarrow> WebCrawler" where
  "new_WebCrawler E opts =
     \<lparr>frontier = new_URLQueue (crawler_maxPages opts),
      result = new_CrawlResult (now E 0),
      ticks = 1, attempts = 0, trace = []\<rparr>"

definition filterLinks :: "'u platform \<Rightarrow> crawler_options \<Rightarrow> link list \<Rightarrow> string list option" where
  "filterLinks E opts ls =
     (case url_new E (baseUrl opts) of
        None \<Rightarrow> None
      | Some base \<Rightarrow>
          let baseHost = url_hostname E base
          in Some (filter
                (\<lambda>h. case url_new E h of
                        None \<Rightarrow> False
                      | Some parsed \<Rightarrow>
                          url_hostname E parsed = baseHost \<or>
                          endsWith (url_hostname E parsed) (''.'' @ baseHost))
                (map href ls)))"

fun add_links :: "'u platform \<Rightarrow> string list \<Rightarrow> int \<Rightarrow> URLQueue \<Rightarrow> URLQueue" where
  "add_links E [] d q = q"
| "add_links E (l # ls) d q = add_links E ls d (snd (add E l d q))"

text \<open>\<open>response?.status() || 0\<close>\<close>

definition status_of :: "nat option \<Rightarrow> nat" where
  "status_of response = (case response of None \<Rightarrow> 0 | Some st \<Rightarrow> st)"

text \<open>\<open>extractPageData\<close> followed by the two assignments of lines 272-273: \<open>t1\<close> is the
  clock reading of the timestamp, \<open>t2\<close> the one of the load time.\<close>

definition make_pageData :: "'u platform \<Rightarrow> string \<Rightarrow> int \<Rightarrow> extracted \<Rightarrow> nat \<Rightarrow> int \<Rightarrow> int \<Rightarrow> int \<Rightarrow> page_data" where
  "make_pageData E u d ex code pageStart t1 t2 =
     \<lparr>url = u, depth = d, timestamp = toISOString E t1, title = ex_title ex,
      headings = ex_headings ex, links = ex_links ex, images = ex_images ex,
      tables = ex_tables ex, textContent = ex_textContent ex, meta = ex_meta ex,
      statusCode = code, loadTime = t2 - pageStart\<rparr>"

text \<open>
  One pass through the \<open>try\<close> block. The result is the error caught by the \<open>catch\<close>
  clause, if any, and the crawler as the pass leaves it. \<open>filterLinks\<close> throws when the
  base URL does not parse, which the same \<open>catch\<close> receives.
\<close>

definition try_visit ::
  "'u platform \<Rightarrow> crawler_options \<Rightarrow> string \<Rightarrow> int \<Rightarrow> int \<Rightarrow> WebCrawler \<Rightarrow> js_error option \<times> WebCrawler" where
  "try_visit E opts u d pageStart s0 =
     (let s = s0\<lparr>attempts := attempts s0 + 1, trace := trace s0 @ [Visit u]\<rparr>
      in case browse E (attempts s0) u of
           Threw m \<Rightarrow> (Some (Thrown m), s)
         | Navigated response ex \<Rightarrow>
             let code = status_of response
             in if code \<ge> 400 then (Some (HttpError code), s)
                else (case ex of
                        Inl m \<Rightarrow> (Some (Thrown m), s)
                      | Inr data \<Rightarrow>
                          let pageData = make_pageData E u d data code pageStart
                                           (now E (ticks s)) (now E (ticks s + 1));
                              s1 = s\<lparr>ticks := ticks s + 2\<rparr>
                          in if d < maxDepth opts
                             then (case filterLinks E opts (links pageData) of
                                     None \<Rightarrow> (Some InvalidURL, s1)
                                   | Some newLinks \<Rightarrow>
                                       (None, s1\<lparr>frontier := add_links E newLinks (d + 1) (frontier s1),
                                                  result := addPage pageData (result s1)\<rparr>))
                             else (None, s1\<lparr>result := addPage pageData (result s1)\<rparr>)))"

text \<open>The \<open>catch\<close> clause once \<open>retries\<close> has been incremented to \<open>r\<close>.\<close>

definition on_error :: "'u platform \<Rightarrow> crawler_options \<Rightarrow> string \<Rightarrow> js_error \<Rightarrow> nat \<Rightarrow> WebCrawler \<Rightarrow> WebCrawler" where
  "on_error E opts u err r s =
     (if r > MAX_RETRIES opts
      then s\<lparr>result := addError u err (toISOString E (now E (ticks s))) (result s),
             ticks := ticks s + 1\<rparr>
      else s\<lparr>trace := trace s @ [Backoff (RETRY_DELAY opts * r)]\<rparr>)"

function crawlPage_loop ::
  "'u platform \<Rightarrow> crawler_options \<Rightarrow> string \<Rightarrow> int \<Rightarrow> int \<Rightarrow> nat \<Rightarrow> WebCrawler \<Rightarrow> WebCrawler" where
  "crawlPage_loop E opts u d pageStart retries s =
     (if retries \<le> MAX_RETRIES opts
      then (case fst (try_visit E opts u d pageStart s) of
              None \<Rightarrow> snd (try_visit E opts u d pageStart s)
            | Some err \<Rightarrow>
                crawlPage_loop E opts u d pageStart (retries + 1)
                  (on_error E opts u err (retries + 1) (snd (try_visit E opts u d pageStart s))))
      else s)"
  by pat_completeness auto
termination
  by (relation "measure (\<lambda>(E, opts, u, d, pageStart, retries, s). MAX_RETRIES opts + 1 - retries)") auto

declare crawlPage_loop.simps [simp del]

definition crawlPage :: "'u platform \<Rightarrow> crawler_options \<Rightarrow> string \<Rightarrow> int \<Rightarrow> WebCrawler \<Rightarrow> WebCrawler" where
  "crawlPage E opts u d s =
     crawlPage_loop E opts u d (now E (ticks s)) 0 (s\<lparr>ticks := ticks s + 1\<rparr>)"

text \<open>
  One iteration of the \<open>while\<close> loop of \<open>crawl\<close>; \<open>None\<close> when the loop ends (its condition
  is false, or \<open>next()\<close> returned nothing).
\<close>

definition crawl_step :: "'u platform \<Rightarrow> crawler_options \<Rightarrow> WebCrawler \<Rightarrow> WebCrawler option" where
  "crawl_step E opts s =
     (if hasMore (frontier s) \<and>
         num_lt (int (successfulPages (stats (result s)))) (crawler_maxPages opts)
      then (case fst (next_q (frontier s)) of
              None \<Rightarrow> None
            | Some item \<Rightarrow>
                let s1 = s\<lparr>frontier := snd (next_q (frontier s))\<rparr>
                in if depth item > maxDepth opts then Some s1
                   else let s2 = crawlPage E opts (url item) (depth item) s1
                        in Some (s2\<lparr>trace := trace s2 @ [RateLimit (REQUEST_DELAY opts)]\<rparr>))
      else None)"

text \<open>
  The loop ends: an iteration that records a page uses up one unit of the page budget,
  and every other iteration leaves the budget as it is and shortens the queue.
\<close>

definition pages_left :: "crawler_options \<Rightarrow> WebCrawler \<Rightarrow> nat" where
  "pages_left opts s =
     (case crawler_maxPages opts of
        NaN \<Rightarrow> 0
      | Num n \<Rightarrow> nat (n - int (successfulPages (stats (result s)))))"

lemma try_visit_progress:
  "(fst (try_visit E opts u d pageStart s) = None \<and>
    successfulPages (stats (result (snd (try_visit E opts u d pageStart s))))
      = Suc (successfulPages (stats (result s)))) \<or>
   (fst (try_visit E opts u d pageStart s) \<noteq> None \<and>
    result (snd (try_visit E opts u d pageStart s)) = result s \<and>
    frontier (snd (try_visit E opts u d pageStart s)) = frontier s)"
  by (auto simp: try_visit_def Let_def addPage_def
           split: outcome.splits sum.splits option.splits)

lemma frontier_on_error [simp]: "frontier (on_error E opts u err r s) = frontier s"
  by (simp add: on_error_def)

lemma successfulPages_on_error [simp]:
  "successfulPages (stats (result (on_error E opts u err r s))) = successfulPages (stats (result s))"
  by (simp add: on_error_def addError_def)

lemma crawlPage_loop_progress:
  "successfulPages (stats (result (crawlPage_loop E opts u d pageStart retries s)))
     = Suc (successfulPages (stats (result s))) \<or>
   (successfulPages (stats (result (crawlPage_loop E opts u d pageStart retries s)))
      = successfulPages (stats (result s)) \<and>
    frontier (crawlPage_loop E opts u d pageStart retries s) = frontier s)"
proof (induction E opts u d pageStart retries s rule: crawlPage_loop.induct)
  case (1 E opts u d pageStart retries s)
  show ?case
  proof (cases "retries \<le> MAX_RETRIES opts")
    case False
    then show ?thesis by (subst (1 2 3) crawlPage_loop.simps) simp
  next
    case True
    show ?thesis
    proof (cases "fst (try_visit E opts u d pageStart s)")
      case None
      have "crawlPage_loop E opts u d pageStart retries s = snd (try_visit E opts u d pageStart s)"
        using True None by (subst crawlPage_loop.simps) simp
      with None try_visit_progress [of E opts u d pageStart s] show ?thesis by simp
    next
      case (Some err)
      have "crawlPage_loop E opts u d pageStart retries s
            = crawlPage_loop E opts u d pageStart (retries + 1)
                (on_error E opts u err (retries + 1) (snd (try_visit E opts u d pageStart s)))"
        using True Some by (subst crawlPage_loop.simps) simp
      with "1.IH" [OF True Some] Some try_visit_progress [of E opts u d pageStart s]
      show ?thesis by simp
    qed
  qed
qed

lemma crawl_step_decreases:
  assumes "crawl_step E opts s = Some s'"
  shows "pages_left opts s' < pages_left opts s \<or>
         (pages_left opts s' = pages_left opts s \<and>
          length (queue (frontier s')) < length (queue (frontier s)))"
proof -
  from assms obtain item rest where q: "queue (frontier s) = item # rest"
    by (cases "queue (frontier s)") (auto simp: crawl_step_def hasMore_def)
  from assms obtain n where n: "crawler_maxPages opts = Num n"
    "int (successfulPages (stats (result s))) < n"
    by (cases "crawler_maxPages opts") (auto simp: crawl_step_def split: if_splits)
  let ?s1 = "s\<lparr>frontier := (frontier s)\<lparr>queue := rest\<rparr>\<rparr>"
  let ?s2 = "crawlPage E opts (url item) (depth item) ?s1"
  have "s' = ?s1 \<or> s' = ?s2\<lparr>trace := trace ?s2 @ [RateLimit (REQUEST_DELAY opts)]\<rparr>"
    using assms q by (auto simp: crawl_step_def next_q_def Let_def split: if_splits)
  moreover have "pages_left opts ?s1 = pages_left opts s"
    "length (queue (frontier ?s1)) < length (queue (frontier s))"
    using q n by (simp_all add: pages_left_def)
  moreover have "pages_left opts ?s2 < pages_left opts s \<or>
    (pages_left opts ?s2 = pages_left opts s \<and>
     length (queue (frontier ?s2)) < length (queue (frontier s)))"
    using crawlPage_loop_progress
      [of E opts "url item" "depth item" "now E (ticks ?s1)" 0 "?s1\<lparr>ticks := ticks ?s1 + 1\<rparr>"]
      n q
    by (auto simp: crawlPage_def pages_left_def)
  ultimately show ?thesis using n by (auto simp: pages_left_def)
qed

function crawl_loop :: "'u platform \<Rightarrow> crawler_options \<Rightarrow> WebCrawler \<Rightarrow> WebCrawler" where
  "crawl_loop E opts s =
     (case crawl_step E opts s of None \<Rightarrow> s | Some s' \<Rightarrow> crawl_loop E opts s')"
  by pat_completeness auto
termination
  by (relation "measures [\<lambda>(E, opts, s). pages_left opts s,
                           \<lambda>(E, opts, s). length (queue (frontier s))]")
     (auto dest: crawl_step_decreases)

declare crawl_loop.simps [simp del]

text \<open>Seeding the queue, and \<open>crawl\<close>: seed, loop, finalize.\<close>

definition seed :: "'u platform \<Rightarrow> crawler_options \<Rightarrow> WebCrawler \<Rightarrow> WebCrawler" where
  "seed E opts s = s\<lparr>frontier := snd (add E (baseUrl opts) 0 (frontier s))\<rparr>"

definition crawl :: "'u platform \<Rightarrow> crawler_options \<Rightarrow> WebCrawler \<Rightarrow> WebCrawler" where
  "crawl E opts s =
     (let s1 = crawl_loop E opts (seed E opts s)
      in s1\<lparr>result := finalize (now E (ticks s1)) (result s1), ticks := ticks s1 + 1\<rparr>)"

text \<open>The states the crawler is in at the top of the loop, from a start state.\<close>

inductive running :: "'u platform \<Rightarrow> crawler_options \<Rightarrow> WebCrawler \<Rightarrow> WebCrawler \<Rightarrow> bool"
  for E opts s0 where
  seeded: "running E opts s0 (seed E opts s0)"
| stepped: "running E opts s0 s \<Longrightarrow> crawl_step E opts s = Some s' \<Longrightarrow> running E opts s0 s'"

subsection \<open>saveResults and the signal handler\<close>

definition dquote :: char where
  "dquote = CHR 0x22"

definition newline :: char where
  "newline = CHR 0x0A"

text \<open>\<open>t.replaceAll(/"/g, '""')\<close>\<close>

definition double_quotes :: "string \<Rightarrow> string" where
  "double_quotes t = concat (map (\<lambda>c. if c = dquote then [dquote, dquote] else [c]) t)"

definition csv_headers :: "string list" where
  "csv_headers = [''url'', ''depth'', ''title'', ''statusCode'', ''loadTime'', ''linksCount'',
                  ''imagesCount'', ''timestamp'']"

definition csv_row :: "page_data \<Rightarrow> string list" where
  "csv_row p =
     [[dquote] @ url p @ [dquote],
      show_int (depth p),
      [dquote] @ double_quotes (title p) @ [dquote],
      show_nat (statusCode p),
      show_int (loadTime p),
      show_nat (length (links p)),
      show_nat (length (images p)),
      timestamp p]"

definition csv :: "page_data list \<Rightarrow> string" where
  "csv ps = join [newline] (join '','' csv_headers # map (\<lambda>r. join '','' r) (map csv_row ps))"

record json_crawl =
  targetUrl :: string
  json_startTime :: string
  json_endTime :: string
  json_duration :: string
  config_maxDepth :: int
  config_maxPages :: number

record json_output =
  json_crawl :: json_crawl
  json_stats :: stats
  json_pages :: "page_data list"
  json_errors :: "error_record list"

datatype written = JsonFile json_output | CsvFile string | ErrorsFile "error_record list"

text \<open>
  \<open>new Date(null)\<close> is the instant 0, and \<open>(undefined / 1000).toFixed(2)\<close> is \<open>"NaN"\<close>:
  what the JSON branch makes of a result that \<open>finalize\<close> has not stamped.
\<close>

definition json_of :: "'u platform \<Rightarrow> crawler_options \<Rightarrow> CrawlResult \<Rightarrow> json_output" where
  "json_of E opts r =
     \<lparr>json_crawl =
        \<lparr>targetUrl = baseUrl opts,
         json_startTime = toISOString E (startTime r),
         json_endTime = toISOString E (case endTime r of None \<Rightarrow> 0 | Some t \<Rightarrow> t),
         json_duration = (case duration (stats r) of None \<Rightarrow> ''NaN'' | Some d \<Rightarrow> toFixed2 E d) @ ''s'',
         config_maxDepth = maxDepth opts,
         config_maxPages = crawler_maxPages opts\<rparr>,
      json_stats = stats r, json_pages = pages r, json_errors = errors r\<rparr>"

definition saveResults :: "'u platform \<Rightarrow> crawler_options \<Rightarrow> WebCrawler \<Rightarrow> written list" where
  "saveResults E opts s =
     (if format opts = ''json'' \<or> format opts = ''both''
      then [JsonFile (json_of E opts (result s))] else []) @
     (if format opts = ''csv'' \<or> format opts = ''both''
      then [CsvFile (csv (pages (result s)))] else []) @
     (if length (errors (result s)) > 0 then [ErrorsFile (errors (result s))] else [])"

text \<open>
  The handler of SIGINT and SIGTERM: the files it writes from the crawler as it is when
  the signal is handled, and the exit code. The normal path of \<open>main\<close> is \<open>crawl\<close>
  followed by \<open>saveResults\<close>.
\<close>

definition shutdown :: "'u platform \<Rightarrow> crawler_options \<Rightarrow> WebCrawler \<Rightarrow> written list \<times> int" where
  "shutdown E opts s = (saveResults E opts s, 0)"

definition main :: "'u platform \<Rightarrow> crawler_options \<Rightarrow> written list" where
  "main E opts = saveResults E opts (crawl E opts (new_WebCrawler E opts))"

subsection \<open>A platform to run the model on\<close>

text \<open>
  The \<open>URL\<close> class on plain URLs \<open>http(s)://host[/path][?query][#fragment]\<close> with a host
  of lower-case letters, digits, dots and hyphens: on these, when the path has no dot
  segment and no character needs percent-encoding, it parses and serializes as the
  platform's class does (an empty path becomes \<open>/\<close>). Every other string is refused.
  It serves the closed examples below; the general theorems hold for any platform.
\<close>

record URL =
  protocol :: string
  hostname :: string
  pathname :: string
  query :: "string option"
  fragment :: "string option"

definition split_once :: "char \<Rightarrow> string \<Rightarrow> string \<times> string option" where
  "split_once c s =
     (if c \<in> set s
      then (takeWhile (\<lambda>x. x \<noteq> c) s, Some (tl (dropWhile (\<lambda>x. x \<noteq> c) s)))
      else (s, None))"

definition host_char :: "char \<Rightarrow> bool" where
  "host_char c = (c \<in> set ''abcdefghijklmnopqrstuvwxyz0123456789.-'')"

definition URL_parse_rest :: "string \<Rightarrow> string \<Rightarrow> URL option" where
  "URL_parse_rest scheme r =
     (let r1 = fst (split_once CHR ''#'' r);
          r2 = fst (split_once CHR ''?'' r1);
          host = takeWhile (\<lambda>x. x \<noteq> CHR ''/'') r2;
          path = dropWhile (\<lambda>x. x \<noteq> CHR ''/'') r2
      in if host = [] \<or> \<not> list_all host_char host then None
         else Some \<lparr>protocol = scheme, hostname = host,
                     pathname = (if path = [] then ''/'' else path),
                     query = snd (split_once CHR ''?'' r1),
                     fragment = snd (split_once CHR ''#'' r)\<rparr>)"

definition URL_parse :: "string \<Rightarrow> URL option" where
  "URL_parse s =
     (if startsWith s ''http://'' then URL_parse_rest ''http:'' (drop 7 s)
      else if startsWith s ''https://'' then URL_parse_rest ''https:'' (drop 8 s)
      else None)"

definition URL_set_hash :: "URL \<Rightarrow> string \<Rightarrow> URL" where
  "URL_set_hash p h =
     p\<lparr>fragment := (if h = [] then None
                     else Some (if startsWith h ''#'' then tl h else h))\<rparr>"

definition URL_toString :: "URL \<Rightarrow> string" where
  "URL_toString p =
     protocol p @ ''//'' @ hostname p @ pathname p @
     (case query p of None \<Rightarrow> [] | Some q \<Rightarrow> ''?'' @ q) @
     (case fragment p of None \<Rightarrow> [] | Some f \<Rightarrow> ''#'' @ f)"

text \<open>A platform with this \<open>URL\<close> class, instants shown as their number of milliseconds,
  and a given clock and web.\<close>

definition plain_platform :: "(nat \<Rightarrow> int) \<Rightarrow> (nat \<Rightarrow> string \<Rightarrow> outcome) \<Rightarrow> URL platform" where
  "plain_platform clock web =
     \<lparr>url_new = URL_parse, url_set_hash = URL_set_hash, url_toString = URL_toString,
      url_hostname = hostname, now = clock, toISOString = show_int, toFixed2 = show_int,
      browse = web\<rparr>"

definition page_with :: "string \<Rightarrow> string list \<Rightarrow> extracted" where
  "page_with t hs =
     \<lparr>ex_title = t, ex_headings = [], ex_links = map (\<lambda>h. \<lparr>href = h, link_text = []\<rparr>) hs,
      ex_images = [], ex_tables = [], ex_textContent = [], ex_meta = []\<rparr>"

text \<open>The site of the breadth-first example: A links to B and C, B links to D.\<close>

definition site_links :: "string \<Rightarrow> string list" where
  "site_links u =
     (if u = ''http://a.com'' then [''http://a.com/b'', ''http://a.com/c'']
      else if u = ''http://a.com/b'' then [''http://a.com/d'']
      else [])"

definition site_web :: "nat \<Rightarrow> string \<Rightarrow> outcome" where
  "site_web n u = Navigated (Some 200) (Inr (page_with u (site_links u)))"

text \<open>A web where the first \<open>k\<close> attempts of the run time out and every later one loads
  a page without links, through a \<open>goto\<close> that resolved to \<open>response\<close>.\<close>

definition flaky_web :: "nat \<Rightarrow> nat option \<Rightarrow> nat \<Rightarrow> string \<Rightarrow> outcome" where
  "flaky_web k response n u =
     (if n < k then Threw ''timeout'' else Navigated response (Inr (page_with u [])))"

definition tick_clock :: "nat \<Rightarrow> int" where
  "tick_clock n = 10 * int n"

definition site_platform :: "URL platform" where
  "site_platform = plain_platform tick_clock site_web"

definition site_options :: crawler_options where
  "site_options = config_js ''http://a.com/'' 2 50 ''json''"

definition sample_page :: page_data where
  "sample_page =
     make_pageData site_platform ''http://a.com'' 0
       (page_with ([CHR ''a'', dquote, CHR ''b'']) [''http://a.com/b'']) 200 10 20 30"

definition flaky_platform :: "nat \<Rightarrow> nat option \<Rightarrow> URL platform" where
  "flaky_platform k response = plain_platform tick_clock (flaky_web k response)"

text \<open>Options with a negative depth limit, as \<open>--depth -1\<close> gives them.\<close>

definition negative_depth_options :: crawler_options where
  "negative_depth_options = config_js ''http://a.com/'' (- 1) 50 ''json''"


definition dated_page :: page_data where
  "dated_page = sample_page\<lparr>timestamp := ''2024-01-01T00:00:00.000Z''\<rparr>"

definition csv_options :: crawler_options where
  "csv_options = config_js ''http://a.com/'' 2 50 ''csv''"

subsection \<open>Reading a trace\<close>

fun visits :: "event list \<Rightarrow> string list" where
  "visits [] = []"
| "visits (Visit u # es) = u # visits es"
| "visits (e # es) = visits es"

fun backoffs :: "event list \<Rightarrow> nat list" where
  "backoffs [] = []"
| "backoffs (Backoff ms # es) = ms # backoffs es"
| "backoffs (e # es) = backoffs es"

text \<open>The events a call adds to the trace.\<close>

definition new_events :: "WebCrawler \<Rightarrow> WebCrawler \<Rightarrow> event list" where
  "new_events s s' = drop (length (trace s)) (trace s')"

text \<open>
  The error, if any, that the \<open>n\<close>-th visit attempt of the run ends with at URL \<open>u\<close> and
  depth \<open>d\<close>: the first component of \<open>try_visit\<close>, which depends on the crawler only
  through the number of the attempt (lemma \<open>fst_try_visit\<close>).
\<close>

definition visit_error :: "'u platform \<Rightarrow> crawler_options \<Rightarrow> string \<Rightarrow> int \<Rightarrow> nat \<Rightarrow> js_error option" where
  "visit_error E opts u d n =
     (case browse E n u of
        Threw m \<Rightarrow> Some (Thrown m)
      | Navigated response ex \<Rightarrow>
          if status_of response \<ge> 400 then Some (HttpError (status_of response))
          else (case ex of
                  Inl m \<Rightarrow> Some (Thrown m)
                | Inr data \<Rightarrow>
                    if d < maxDepth opts \<and> url_new E (baseUrl opts) = None
                    then Some InvalidURL else None))"

text \<open>\<open>j\<close> failed attempts after \<open>r\<close> earlier ones, each followed by its wait.\<close>

definition failed_rounds :: "string \<Rightarrow> nat \<Rightarrow> nat \<Rightarrow> nat \<Rightarrow> event list" where
  "failed_rounds u delay r j =
     concat (map (\<lambda>k. [Visit u, Backoff (delay * k)]) [Suc r..<Suc (r + j)])"

subsection \<open>Level order\<close>

text \<open>
  Level order: the depths of the recorded pages followed by the depths waiting in the
  queue never decrease, and the queue spans at most two adjacent levels.
\<close>

definition level_order :: "int list \<Rightarrow> int list \<Rightarrow> bool" where
  "level_order ps qs = (sorted (ps @ qs) \<and> (\<forall>x\<in>set qs. x \<le> hd qs + 1))"

subsection \<open>The wording of the specification, for comparison\<close>

text \<open>
  The normalization as the specification words it, on the \<open>URL\<close> model above: parse,
  strip the fragment, strip a single trailing slash from the path. It is here to be
  compared with \<open>normalize\<close>.
\<close>

definition normalize_as_specified :: "string \<Rightarrow> string option" where
  "normalize_as_specified u =
     (case URL_parse u of
        None \<Rightarrow> None
      | Some p \<Rightarrow>
          Some (URL_toString
            (p\<lparr>fragment := None,
               pathname := (if endsWith (pathname p) ''/'' then butlast (pathname p)
                            else pathname p)\<rparr>)))"

text \<open>
  The CSV report as the specification words it, to be compared with \<open>csv\<close>: the column
  \<open>loadTimeMs\<close>, and every string field (URL, title, timestamp) quoted with internal
  double quotes doubled.
\<close>

definition csv_quoted :: "string \<Rightarrow> string" where
  "csv_quoted t = [dquote] @ double_quotes t @ [dquote]"

definition csv_headers_as_specified :: "string list" where
  "csv_headers_as_specified =
     [''url'', ''depth'', ''title'', ''statusCode'', ''loadTimeMs'', ''linksCount'',
      ''imagesCount'', ''timestamp'']"

definition csv_row_as_specified :: "page_data \<Rightarrow> string list" where
  "csv_row_as_specified p =
     [csv_quoted (url p), show_int (depth p), csv_quoted (title p), show_nat (statusCode p),
      show_int (loadTime p), show_nat (length (links p)), show_nat (length (images p)),
      csv_quoted (timestamp p)]"

definition csv_as_specified :: "page_data list \<Rightarrow> string" where
  "csv_as_specified ps =
     join [newline]
       (join '','' csv_headers_as_specified # map (\<lambda>r. join '','' r) (map csv_row_as_specified ps))"

section \<open>Properties\<close>

lemma num_ge_Num: "maxPages q = Num b \<Longrightarrow> \<not> num_ge a (maxPages q) \<Longrightarrow> a < b"
  by simp




lemma stats_call:
  "totalPages (stats r) = successfulPages (stats r) + failedPages (stats r) \<Longrightarrow>
   totalPages (stats (call r c)) = successfulPages (stats (call r c)) + failedPages (stats (call r c))"
  by (cases c) (simp_all add: addPage_def addError_def finalize_def)

lemma stats_calls:
  "totalPages (stats r) = successfulPages (stats r) + failedPages (stats r) \<Longrightarrow>
   totalPages (stats (foldl call r cs))
     = successfulPages (stats (foldl call r cs)) + failedPages (stats (foldl call r cs))"
proof (induction cs arbitrary: r)
  case Nil
  then show ?case by simp
next
  case (Cons c cs)
  from Cons.prems have "totalPages (stats (call r c))
      = successfulPages (stats (call r c)) + failedPages (stats (call r c))"
    by (rule stats_call)
  then show ?case using Cons.IH [of "call r c"] by simp
qed

text \<open>
  C3. \<open>addPage\<close> increments \<open>totalPages\<close> and \<open>successfulPages\<close> by one and leaves
  \<open>failedPages\<close>; \<open>addError\<close> increments \<open>totalPages\<close> and \<open>failedPages\<close> by one and leaves
  \<open>successfulPages\<close>; and after every run of \<open>addPage\<close>, \<open>addError\<close> and \<open>finalize\<close> calls,
  in any order and number, on a new aggregator,
  \<open>totalPages = successfulPages + failedPages\<close>.
\<close>

theorem C3_stats_sum:
  "totalPages (stats (addPage p r)) = totalPages (stats r) + 1 \<and>
   successfulPages (stats (addPage p r)) = successfulPages (stats r) + 1 \<and>
   failedPages (stats (addPage p r)) = failedPages (stats r) \<and>
   totalPages (stats (addError u e ts r)) = totalPages (stats r) + 1 \<and>
   failedPages (stats (addError u e ts r)) = failedPages (stats r) + 1 \<and>
   successfulPages (stats (addError u e ts r)) = successfulPages (stats r) \<and>
   totalPages (stats (foldl call (new_CrawlResult t) cs))
     = successfulPages (stats (foldl call (new_CrawlResult t) cs))
       + failedPages (stats (foldl call (new_CrawlResult t) cs))"
proof -
  have "totalPages (stats (new_CrawlResult t))
        = successfulPages (stats (new_CrawlResult t)) + failedPages (stats (new_CrawlResult t))"
    by (simp add: new_CrawlResult_def)
  from stats_calls [OF this] show ?thesis
    by (simp add: addPage_def addError_def)
qed

text \<open>
  C7, as the specification states it, fails: the aggregator has no finalized state, and
  \<open>addPage\<close> and \<open>addError\<close> after \<open>finalize\<close> return normally with the record appended
  and the counters incremented.
\<close>

theorem C7_add_after_finalize_counterexample:
  "pages (addPage sample_page (finalize 5 (new_CrawlResult 0))) = [sample_page] \<and>
   totalPages (stats (addPage sample_page (finalize 5 (new_CrawlResult 0)))) = 1 \<and>
   endTime (addPage sample_page (finalize 5 (new_CrawlResult 0))) = Some 5 \<and>
   errors (addError ''http://a.com'' (HttpError 500) ''t'' (finalize 5 (new_CrawlResult 0)))
     = [\<lparr>error_url = ''http://a.com'', error = ''HTTP 500'', error_timestamp = ''t''\<rparr>] \<and>
   failedPages (stats (addError ''http://a.com'' (HttpError 500) ''t'' (finalize 5 (new_CrawlResult 0)))) = 1"
proof -
  have "show_nat 500 = ''500''" by code_simp
  then show ?thesis
    by (simp add: addPage_def addError_def finalize_def new_CrawlResult_def)
qed

text \<open>
  C7, amended. \<open>finalize\<close> stamps \<open>endTime\<close> and assigns \<open>duration = endTime - startTime\<close>;
  a second call overwrites both from the same \<open>startTime\<close>, so the duration is not
  counted twice. There is no guard: \<open>addPage\<close> and \<open>addError\<close> after \<open>finalize\<close> do what
  they do before it, and leave \<open>endTime\<close> and \<open>duration\<close> as they are.
\<close>

theorem C7_finalize_overwrites:
  "endTime (finalize t r) = Some t \<and>
   duration (stats (finalize t r)) = Some (t - startTime r) \<and>
   finalize t2 (finalize t1 r) = finalize t2 r \<and>
   duration (stats (finalize t2 (finalize t1 r))) = Some (t2 - startTime r) \<and>
   addPage p (finalize t r) = finalize t (addPage p r) \<and>
   addError u e ts (finalize t r) = finalize t (addError u e ts r) \<and>
   pages (addPage p (finalize t r)) = pages r @ [p] \<and>
   length (errors (addError u e ts (finalize t r))) = length (errors r) + 1"
  by (simp add: finalize_def addPage_def addError_def)

subsection \<open>The retry loop\<close>

lemma visits_append [simp]: "visits (xs @ ys) = visits xs @ visits ys"
  by (induction xs rule: visits.induct) simp_all

lemma backoffs_append [simp]: "backoffs (xs @ ys) = backoffs xs @ backoffs ys"
  by (induction xs rule: backoffs.induct) simp_all

lemma failed_rounds_0 [simp]: "failed_rounds u delay r 0 = []"
  by (simp add: failed_rounds_def)

lemma failed_rounds_Suc:
  "failed_rounds u delay r (Suc j)
   = [Visit u, Backoff (delay * Suc r)] @ failed_rounds u delay (Suc r) j"
  by (simp add: failed_rounds_def upt_conv_Cons del: upt_Suc)



lemma make_pageData_sel [simp]:
  "url (make_pageData E u d ex code pageStart t1 t2) = u"
  "depth (make_pageData E u d ex code pageStart t1 t2) = d"
  "links (make_pageData E u d ex code pageStart t1 t2) = ex_links ex"
  "statusCode (make_pageData E u d ex code pageStart t1 t2) = code"
  by (simp_all add: make_pageData_def)

lemma fst_try_visit:
  "fst (try_visit E opts u d pageStart s) = visit_error E opts u d (attempts s)"
  by (simp add: try_visit_def visit_error_def Let_def filterLinks_def make_pageData_def
           split: outcome.splits sum.splits option.splits)

lemma try_visit_failed:
  assumes "visit_error E opts u d (attempts s) = Some err"
  shows "result (snd (try_visit E opts u d pageStart s)) = result s"
    and "frontier (snd (try_visit E opts u d pageStart s)) = frontier s"
    and "attempts (snd (try_visit E opts u d pageStart s)) = attempts s + 1"
    and "trace (snd (try_visit E opts u d pageStart s)) = trace s @ [Visit u]"
  using assms
  by (auto simp: try_visit_def visit_error_def Let_def filterLinks_def make_pageData_def
           split: outcome.splits sum.splits option.splits if_splits)

lemma try_visit_loaded:
  assumes "visit_error E opts u d (attempts s) = None"
  shows "\<exists>p. url p = u \<and> depth p = d \<and>
             result (snd (try_visit E opts u d pageStart s)) = addPage p (result s)"
    and "attempts (snd (try_visit E opts u d pageStart s)) = attempts s + 1"
    and "trace (snd (try_visit E opts u d pageStart s)) = trace s @ [Visit u]"
proof -
  from assms obtain response data
    where b: "browse E (attempts s) u = Navigated response (Inr data)"
      and ok: "\<not> status_of response \<ge> 400"
    by (auto simp: visit_error_def split: outcome.splits sum.splits if_splits)
  let ?p = "make_pageData E u d data (status_of response) pageStart
              (now E (ticks s)) (now E (ticks s + 1))"
  have "result (snd (try_visit E opts u d pageStart s)) = addPage ?p (result s)"
    using assms b ok
    by (auto simp: try_visit_def visit_error_def Let_def filterLinks_def
             split: option.splits if_splits)
  then show "\<exists>p. url p = u \<and> depth p = d \<and>
             result (snd (try_visit E opts u d pageStart s)) = addPage p (result s)"
    by (intro exI [of _ ?p]) simp
  show "attempts (snd (try_visit E opts u d pageStart s)) = attempts s + 1"
    and "trace (snd (try_visit E opts u d pageStart s)) = trace s @ [Visit u]"
    using assms b ok
    by (auto simp: try_visit_def visit_error_def Let_def filterLinks_def
             split: option.splits if_splits)
qed

lemma crawlPage_loop_shape:
  assumes "r \<le> MAX_RETRIES opts"
  shows "\<exists>j. r + j \<le> MAX_RETRIES opts \<and>
             (\<forall>i<j. visit_error E opts u d (attempts s + i) \<noteq> None) \<and>
             trace (crawlPage_loop E opts u d pageStart r s)
               = trace s @ failed_rounds u (RETRY_DELAY opts) r j @ [Visit u] \<and>
             attempts (crawlPage_loop E opts u d pageStart r s) = attempts s + j + 1 \<and>
             (visit_error E opts u d (attempts s + j) = None \<longrightarrow>
                (\<exists>p. url p = u \<and> depth p = d \<and>
                   result (crawlPage_loop E opts u d pageStart r s) = addPage p (result s))) \<and>
             (\<forall>err. visit_error E opts u d (attempts s + j) = Some err \<longrightarrow>
                r + j = MAX_RETRIES opts \<and>
                (\<exists>ts. result (crawlPage_loop E opts u d pageStart r s)
                      = addError u err ts (result s)))"
  using assms
proof (induction E opts u d pageStart r s rule: crawlPage_loop.induct)
  case (1 E opts u d pageStart r s)
  let ?tv = "snd (try_visit E opts u d pageStart s)"
  show ?case
  proof (cases "visit_error E opts u d (attempts s)")
    case None
    have "crawlPage_loop E opts u d pageStart r s = ?tv"
      using "1.prems" None
      by (simp add: crawlPage_loop.simps [of E opts u d pageStart r s] fst_try_visit)
    with try_visit_loaded [OF None, of pageStart] None "1.prems"
    show ?thesis by (intro exI [of _ 0]) simp
  next
    case (Some err)
    note failed = try_visit_failed [OF Some, of pageStart]
    let ?s' = "on_error E opts u err (r + 1) ?tv"
    have unfold: "crawlPage_loop E opts u d pageStart r s
                  = crawlPage_loop E opts u d pageStart (r + 1) ?s'"
      using "1.prems" Some
      by (simp add: crawlPage_loop.simps [of E opts u d pageStart r s] fst_try_visit)
    show ?thesis
    proof (cases "r + 1 \<le> MAX_RETRIES opts")
      case False
      then have "crawlPage_loop E opts u d pageStart (r + 1) ?s' = ?s'"
        by (subst crawlPage_loop.simps) simp
      with unfold have eq: "crawlPage_loop E opts u d pageStart r s = ?s'" by simp
      have "r = MAX_RETRIES opts" using False "1.prems" by simp
      with eq failed Some show ?thesis
        by (intro exI [of _ 0]) (auto simp: on_error_def)
    next
      case True
      have s': "trace ?s' = trace s @ [Visit u, Backoff (RETRY_DELAY opts * (r + 1))]"
        "attempts ?s' = attempts s + 1" "result ?s' = result s"
        using True failed by (simp_all add: on_error_def)
      have fst: "fst (try_visit E opts u d pageStart s) = Some err"
        using Some by (simp add: fst_try_visit)
      from "1.IH" [OF "1.prems" fst True]
      obtain j where j: "r + 1 + j \<le> MAX_RETRIES opts"
        "\<forall>i<j. visit_error E opts u d (attempts ?s' + i) \<noteq> None"
        "trace (crawlPage_loop E opts u d pageStart (r + 1) ?s')
           = trace ?s' @ failed_rounds u (RETRY_DELAY opts) (r + 1) j @ [Visit u]"
        "attempts (crawlPage_loop E opts u d pageStart (r + 1) ?s') = attempts ?s' + j + 1"
        "visit_error E opts u d (attempts ?s' + j) = None \<longrightarrow>
           (\<exists>p. url p = u \<and> depth p = d \<and>
              result (crawlPage_loop E opts u d pageStart (r + 1) ?s') = addPage p (result ?s'))"
        "\<forall>err. visit_error E opts u d (attempts ?s' + j) = Some err \<longrightarrow>
           r + 1 + j = MAX_RETRIES opts \<and>
           (\<exists>ts. result (crawlPage_loop E opts u d pageStart (r + 1) ?s')
                 = addError u err ts (result ?s'))"
        by (elim exE conjE) (rule that; assumption)
      have all: "\<forall>i<Suc j. visit_error E opts u d (attempts s + i) \<noteq> None"
      proof (intro allI impI)
        fix i assume "i < Suc j"
        show "visit_error E opts u d (attempts s + i) \<noteq> None"
        proof (cases i)
          case 0
          then show ?thesis using Some by simp
        next
          case (Suc i')
          then have "i' < j" using \<open>i < Suc j\<close> by simp
          with j(2) s'(2) Suc show ?thesis by simp
        qed
      qed
      show ?thesis
        using j all unfold s'
        by (intro exI [of _ "Suc j"]) (simp add: failed_rounds_Suc)
    qed
  qed
qed


lemma crawlPage_shape:
  "\<exists>j. j \<le> MAX_RETRIES opts \<and>
       (\<forall>i<j. visit_error E opts u d (attempts s + i) \<noteq> None) \<and>
       trace (crawlPage E opts u d s)
         = trace s @ failed_rounds u (RETRY_DELAY opts) 0 j @ [Visit u] \<and>
       attempts (crawlPage E opts u d s) = attempts s + j + 1 \<and>
       (visit_error E opts u d (attempts s + j) = None \<longrightarrow>
          (\<exists>p. url p = u \<and> depth p = d \<and>
             result (crawlPage E opts u d s) = addPage p (result s))) \<and>
       (\<forall>err. visit_error E opts u d (attempts s + j) = Some err \<longrightarrow>
          j = MAX_RETRIES opts \<and>
          (\<exists>ts. result (crawlPage E opts u d s) = addError u err ts (result s)))"
  using crawlPage_loop_shape [of 0 opts E u d "s\<lparr>ticks := ticks s + 1\<rparr>" "now E (ticks s)"]
  by (simp add: crawlPage_def)







subsection \<open>A navigation without a response\<close>

lemma try_visit_no_response:
  assumes "browse E (attempts s) u = Navigated None (Inr data)"
    and "d < maxDepth opts \<longrightarrow> url_new E (baseUrl opts) \<noteq> None"
  shows "fst (try_visit E opts u d pageStart s) = None"
    and "result (snd (try_visit E opts u d pageStart s))
         = addPage (make_pageData E u d data 0 pageStart (now E (ticks s)) (now E (ticks s + 1)))
             (result s)"
    and "trace (snd (try_visit E opts u d pageStart s)) = trace s @ [Visit u]"
  using assms
  by (auto simp: try_visit_def status_of_def Let_def filterLinks_def split: option.splits)

lemma try_visit_http_error:
  "fst (try_visit E opts u d pageStart s) = Some (HttpError c)
   \<longleftrightarrow> (\<exists>ex. browse E (attempts s) u = Navigated (Some c) ex \<and> c \<ge> 400)"
  by (auto simp: try_visit_def status_of_def Let_def filterLinks_def
           split: outcome.splits option.splits sum.splits)

text \<open>
  C10. When \<open>goto\<close> resolves without a response object the status code is 0, which is
  below 400: if extraction then returns (and the base URL parses, so that link
  filtering cannot throw), \<open>crawlPage\<close> makes that one attempt, adds one page record
  with \<open>statusCode = 0\<close> and no error record, and waits for no retry. The \<open>try\<close> block
  ends with the error \<open>HTTP c\<close> exactly when a response is present with status
  \<open>c \<ge> 400\<close>.
\<close>

theorem C10_no_response_is_success:
  "status_of None = 0 \<and> \<not> status_of None \<ge> 400 \<and>
   (browse E (attempts s) u = Navigated None (Inr data) \<and>
    (d < maxDepth opts \<longrightarrow> url_new E (baseUrl opts) \<noteq> None) \<longrightarrow>
      (\<exists>p. url p = u \<and> depth p = d \<and> statusCode p = 0 \<and>
           pages (result (crawlPage E opts u d s)) = pages (result s) @ [p]) \<and>
      errors (result (crawlPage E opts u d s)) = errors (result s) \<and>
      new_events s (crawlPage E opts u d s) = [Visit u]) \<and>
   (fst (try_visit E opts u d pageStart s) = Some (HttpError c)
      \<longleftrightarrow> (\<exists>ex. browse E (attempts s) u = Navigated (Some c) ex \<and> c \<ge> 400))"
proof -
  have loaded: "(\<exists>p. url p = u \<and> depth p = d \<and> statusCode p = 0 \<and>
           pages (result (crawlPage E opts u d s)) = pages (result s) @ [p]) \<and>
      errors (result (crawlPage E opts u d s)) = errors (result s) \<and>
      new_events s (crawlPage E opts u d s) = [Visit u]"
    if h: "browse E (attempts s) u = Navigated None (Inr data) \<and>
           (d < maxDepth opts \<longrightarrow> url_new E (baseUrl opts) \<noteq> None)"
  proof -
    let ?s1 = "s\<lparr>ticks := ticks s + 1\<rparr>"
    let ?p = "make_pageData E u d data 0 (now E (ticks s)) (now E (ticks ?s1))
                (now E (ticks ?s1 + 1))"
    from h have b: "browse E (attempts ?s1) u = Navigated None (Inr data)"
      and f: "d < maxDepth opts \<longrightarrow> url_new E (baseUrl opts) \<noteq> None"
      by simp_all
    note tv = try_visit_no_response [OF b f, of "now E (ticks s)"]
    have "crawlPage E opts u d s = snd (try_visit E opts u d (now E (ticks s)) ?s1)"
      unfolding crawlPage_def
      using tv(1) by (subst crawlPage_loop.simps) simp
    with tv(2,3) have r: "result (crawlPage E opts u d s) = addPage ?p (result s)"
      and t: "trace (crawlPage E opts u d s) = trace s @ [Visit u]"
      by simp_all
    from r have "pages (result (crawlPage E opts u d s)) = pages (result s) @ [?p]"
      and e: "errors (result (crawlPage E opts u d s)) = errors (result s)"
      by (simp_all add: addPage_def)
    then have "\<exists>p. url p = u \<and> depth p = d \<and> statusCode p = 0 \<and>
           pages (result (crawlPage E opts u d s)) = pages (result s) @ [p]"
      by (intro exI [of _ ?p]) simp
    with e t show ?thesis by (simp add: new_events_def)
  qed
  have "status_of None = 0" by (simp add: status_of_def)
  with loaded try_visit_http_error [of E opts u d pageStart s c] show ?thesis by simp
qed

theorem C10_no_response_is_success_witness:
  "browse (flaky_platform 0 None) (attempts (new_WebCrawler site_platform site_options))
     ''http://a.com'' = Navigated None (Inr (page_with ''http://a.com'' [])) \<and>
   url_new (flaky_platform 0 None) (baseUrl site_options) \<noteq> None \<and>
   map statusCode (pages (result (crawlPage (flaky_platform 0 None) site_options ''http://a.com'' 0
      (new_WebCrawler site_platform site_options)))) = [0] \<and>
   errors (result (crawlPage (flaky_platform 0 None) site_options ''http://a.com'' 0
      (new_WebCrawler site_platform site_options))) = [] \<and>
   new_events (new_WebCrawler site_platform site_options)
     (crawlPage (flaky_platform 0 None) site_options ''http://a.com'' 0
        (new_WebCrawler site_platform site_options)) = [Visit ''http://a.com''] \<and>
   fst (try_visit (flaky_platform 0 (Some 404)) site_options ''http://a.com'' 0 0
          (new_WebCrawler site_platform site_options)) = Some (HttpError 404) \<and>
   fst (try_visit (flaky_platform 0 (Some 399)) site_options ''http://a.com'' 0 0
          (new_WebCrawler site_platform site_options)) = None"
proof -
  let ?s = "new_WebCrawler site_platform site_options"
  have b: "browse (flaky_platform 0 None) (attempts ?s) ''http://a.com''
           = Navigated None (Inr (page_with ''http://a.com'' []))"
    by (simp add: flaky_platform_def plain_platform_def flaky_web_def)
  have p: "url_new (flaky_platform 0 None) (baseUrl site_options) \<noteq> None"
    by code_simp
  have s: "pages (result ?s) = []" "errors (result ?s) = []"
    by (simp_all add: new_WebCrawler_def new_CrawlResult_def)
  have h: "browse (flaky_platform 0 None) (attempts ?s) ''http://a.com''
             = Navigated None (Inr (page_with ''http://a.com'' [])) \<and>
           (0 < maxDepth site_options \<longrightarrow> url_new (flaky_platform 0 None) (baseUrl site_options) \<noteq> None)"
    using b p by blast
  note c = C10_no_response_is_success [of "flaky_platform 0 None" ?s "''http://a.com''"
      "page_with ''http://a.com'' []" 0 site_options 0 404,
      THEN conjunct2, THEN conjunct2, THEN conjunct1, THEN mp, OF h]
  have r: "map statusCode (pages (result (crawlPage (flaky_platform 0 None) site_options
             ''http://a.com'' 0 ?s))) = [0]"
    "errors (result (crawlPage (flaky_platform 0 None) site_options ''http://a.com'' 0 ?s)) = []"
    "new_events ?s (crawlPage (flaky_platform 0 None) site_options ''http://a.com'' 0 ?s)
       = [Visit ''http://a.com'']"
    using c s by auto
  have e: "fst (try_visit (flaky_platform 0 (Some 404)) site_options ''http://a.com'' 0 0 ?s)
           = Some (HttpError 404)"
    "fst (try_visit (flaky_platform 0 (Some 399)) site_options ''http://a.com'' 0 0 ?s) = None"
    by code_simp+
  show ?thesis using b p r e by blast
qed

subsection \<open>Depths\<close>

lemma crawlPage_result:
  "(\<exists>p. url p = u \<and> depth p = d \<and> result (crawlPage E opts u d s) = addPage p (result s)) \<or>
   (\<exists>err ts. result (crawlPage E opts u d s) = addError u err ts (result s))"
proof -
  from crawlPage_shape [of opts E u d s]
  obtain j where
    "visit_error E opts u d (attempts s + j) = None \<longrightarrow>
       (\<exists>p. url p = u \<and> depth p = d \<and> result (crawlPage E opts u d s) = addPage p (result s))"
    "\<forall>err. visit_error E opts u d (attempts s + j) = Some err \<longrightarrow>
       j = MAX_RETRIES opts \<and>
       (\<exists>ts. result (crawlPage E opts u d s) = addError u err ts (result s))"
    by (elim exE conjE)
  then show ?thesis
    by (cases "visit_error E opts u d (attempts s + j)") blast+
qed

lemma crawlPage_pages:
  "set (pages (result (crawlPage E opts u d s)))
   \<subseteq> set (pages (result s)) \<union> {p. url p = u \<and> depth p = d}"
  using crawlPage_result [of u d E opts s]
  by (auto simp: addPage_def addError_def)

lemma add_queue:
  "set (queue (snd (add E u d q))) \<subseteq> set (queue q) \<union> {e. depth e = d}"
  using add_cases [of E u d q] by auto

lemma add_links_queue:
  "set (queue (add_links E ls d q)) \<subseteq> set (queue q) \<union> {e. depth e = d}"
proof (induction ls arbitrary: q)
  case Nil
  show ?case by simp
next
  case (Cons l ls)
  from Cons.IH [of "snd (add E l d q)"] add_queue [of E l d q]
  show ?case by auto
qed

lemma try_visit_queue:
  "set (queue (frontier (snd (try_visit E opts u d pageStart s))))
   \<subseteq> set (queue (frontier s)) \<union> {e. depth e = d + 1 \<and> d < maxDepth opts}"
proof (cases "d < maxDepth opts")
  case True
  then show ?thesis
    using add_links_queue [of E _ "d + 1" "frontier s"]
    by (auto simp: try_visit_def Let_def split: outcome.splits sum.splits option.splits)
next
  case False
  then show ?thesis
    by (auto simp: try_visit_def Let_def split: outcome.splits sum.splits option.splits)
qed

lemma crawlPage_loop_queue:
  "set (queue (frontier (crawlPage_loop E opts u d pageStart r s)))
   \<subseteq> set (queue (frontier s)) \<union> {e. depth e = d + 1 \<and> d < maxDepth opts}"
proof (induction E opts u d pageStart r s rule: crawlPage_loop.induct)
  case (1 E opts u d pageStart r s)
  show ?case
  proof (cases "r \<le> MAX_RETRIES opts")
    case False
    then show ?thesis by (subst crawlPage_loop.simps) simp
  next
    case True
    show ?thesis
    proof (cases "fst (try_visit E opts u d pageStart s)")
      case None
      have "crawlPage_loop E opts u d pageStart r s = snd (try_visit E opts u d pageStart s)"
        using True None by (subst crawlPage_loop.simps) simp
      then show ?thesis using try_visit_queue [of E opts u d pageStart s] by simp
    next
      case (Some err)
      have "crawlPage_loop E opts u d pageStart r s
            = crawlPage_loop E opts u d pageStart (r + 1)
                (on_error E opts u err (r + 1) (snd (try_visit E opts u d pageStart s)))"
        using True Some by (subst crawlPage_loop.simps) simp
      with "1.IH" [OF True Some] try_visit_queue [of E opts u d pageStart s]
      show ?thesis by auto
    qed
  qed
qed

lemma crawlPage_queue:
  "set (queue (frontier (crawlPage E opts u d s)))
   \<subseteq> set (queue (frontier s)) \<union> {e. depth e = d + 1 \<and> d < maxDepth opts}"
  using crawlPage_loop_queue [of E opts u d "now E (ticks s)" 0 "s\<lparr>ticks := ticks s + 1\<rparr>"]
  by (simp add: crawlPage_def)

text \<open>What one iteration of the loop is: the head of the queue is removed, and either
  skipped or crawled.\<close>

lemma crawl_step_cases:
  assumes "crawl_step E opts s = Some s'"
  obtains (skipped) item rest where "queue (frontier s) = item # rest"
      "depth item > maxDepth opts" "s' = s\<lparr>frontier := (frontier s)\<lparr>queue := rest\<rparr>\<rparr>"
  | (crawled) item rest s2 where "queue (frontier s) = item # rest"
      "depth item \<le> maxDepth opts"
      "s2 = crawlPage E opts (url item) (depth item) (s\<lparr>frontier := (frontier s)\<lparr>queue := rest\<rparr>\<rparr>)"
      "s' = s2\<lparr>trace := trace s2 @ [RateLimit (REQUEST_DELAY opts)]\<rparr>"
proof -
  from assms obtain item rest where q: "queue (frontier s) = item # rest"
    by (cases "queue (frontier s)") (auto simp: crawl_step_def hasMore_def)
  show thesis
  proof (cases "depth item > maxDepth opts")
    case True
    with assms q have "s' = s\<lparr>frontier := (frontier s)\<lparr>queue := rest\<rparr>\<rparr>"
      by (auto simp: crawl_step_def next_q_def Let_def split: if_splits)
    with q True show ?thesis by (rule skipped)
  next
    case False
    with assms q have "s' = (crawlPage E opts (url item) (depth item)
                               (s\<lparr>frontier := (frontier s)\<lparr>queue := rest\<rparr>\<rparr>))
                 \<lparr>trace := trace (crawlPage E opts (url item) (depth item)
                               (s\<lparr>frontier := (frontier s)\<lparr>queue := rest\<rparr>\<rparr>))
                            @ [RateLimit (REQUEST_DELAY opts)]\<rparr>"
      by (auto simp: crawl_step_def next_q_def Let_def split: if_splits)
    with q False show ?thesis by (intro crawled [OF q _ refl]) simp_all
  qed
qed

lemma crawl_step_pages:
  assumes "crawl_step E opts s = Some s'"
    and "\<forall>p\<in>set (pages (result s)). depth p \<le> maxDepth opts"
  shows "\<forall>p\<in>set (pages (result s')). depth p \<le> maxDepth opts"
  using assms(1)
proof (cases rule: crawl_step_cases)
  case (skipped item rest)
  with assms(2) show ?thesis by simp
next
  case (crawled item rest s2)
  from crawlPage_pages [of E opts "url item" "depth item"
      "s\<lparr>frontier := (frontier s)\<lparr>queue := rest\<rparr>\<rparr>"] crawled(2,3,4) assms(2)
  show ?thesis by auto
qed

lemma crawl_step_queue:
  assumes "crawl_step E opts s = Some s'"
    and "\<forall>e\<in>set (queue (frontier s)). depth e \<le> maxDepth opts"
  shows "\<forall>e\<in>set (queue (frontier s')). depth e \<le> maxDepth opts"
  using assms(1)
proof (cases rule: crawl_step_cases)
  case (skipped item rest)
  with assms(2) show ?thesis by simp
next
  case (crawled item rest s2)
  from crawlPage_queue [of E opts "url item" "depth item"
      "s\<lparr>frontier := (frontier s)\<lparr>queue := rest\<rparr>\<rparr>"] crawled(1,3,4) assms(2)
  show ?thesis by auto
qed

lemma running_pages:
  assumes "running E opts s0 s" and "\<forall>p\<in>set (pages (result s0)). depth p \<le> maxDepth opts"
  shows "\<forall>p\<in>set (pages (result s)). depth p \<le> maxDepth opts"
  using assms
proof (induction rule: running.induct)
  case seeded
  then show ?case by (simp add: seed_def)
next
  case (stepped s s')
  then show ?case using crawl_step_pages by blast
qed

lemma running_queue:
  assumes "running E opts s0 s" and "0 \<le> maxDepth opts"
    and "\<forall>e\<in>set (queue (frontier s0)). depth e \<le> maxDepth opts"
  shows "\<forall>e\<in>set (queue (frontier s)). depth e \<le> maxDepth opts"
  using assms
proof (induction rule: running.induct)
  case seeded
  from add_queue [of E "baseUrl opts" 0 "frontier s0"] seeded
  show ?case by (auto simp: seed_def)
next
  case (stepped s s')
  then show ?case using crawl_step_queue by blast
qed

lemma running_crawl_loop:
  "running E opts s0 s \<Longrightarrow> running E opts s0 (crawl_loop E opts s)"
proof (induction E opts s rule: crawl_loop.induct)
  case (1 E opts s)
  show ?case
  proof (cases "crawl_step E opts s")
    case None
    then have "crawl_loop E opts s = s" by (subst crawl_loop.simps) simp
    with "1.prems" show ?thesis by simp
  next
    case (Some s')
    then have "crawl_loop E opts s = crawl_loop E opts s'" by (subst crawl_loop.simps) simp
    moreover have "running E opts s0 s'" using "1.prems" Some by (rule running.stepped)
    ultimately show ?thesis using "1.IH" [OF Some] by simp
  qed
qed

lemma crawl_loop_done: "crawl_step E opts (crawl_loop E opts s) = None"
proof (induction E opts s rule: crawl_loop.induct)
  case (1 E opts s)
  show ?case
  proof (cases "crawl_step E opts s")
    case None
    then have "crawl_loop E opts s = s" by (subst crawl_loop.simps) simp
    with None show ?thesis by simp
  next
    case (Some s')
    then have "crawl_loop E opts s = crawl_loop E opts s'" by (subst crawl_loop.simps) simp
    with "1.IH" [OF Some] show ?thesis by simp
  qed
qed

lemma running_crawl:
  "running E opts s0 (crawl_loop E opts (seed E opts s0))"
  by (rule running_crawl_loop) (rule running.seeded)

lemma pages_crawl:
  "pages (result (crawl E opts s0)) = pages (result (crawl_loop E opts (seed E opts s0)))"
  by (simp add: crawl_def Let_def finalize_def)

text \<open>
  C4, as the specification states it, fails: the seed is inserted at depth 0 whatever
  \<open>maxDepth\<close> is. With \<open>maxDepth = -1\<close> the frontier holds an entry of depth
  \<open>0 > maxDepth\<close>, and the loop drops it after taking it from the queue, without a
  visit.
\<close>

theorem C4_seed_exceeds_negative_depth_counterexample:
  "maxDepth negative_depth_options = - 1 \<and>
   queue (frontier (seed site_platform negative_depth_options
      (new_WebCrawler site_platform negative_depth_options)))
     = [\<lparr>url = ''http://a.com'', depth = 0\<rparr>] \<and>
   crawl_step site_platform negative_depth_options
      (seed site_platform negative_depth_options
         (new_WebCrawler site_platform negative_depth_options))
     = Some ((new_WebCrawler site_platform negative_depth_options)
          \<lparr>frontier := \<lparr>queue = [], visited = [''http://a.com''], maxPages = Num 50\<rparr>\<rparr>) \<and>
   trace (new_WebCrawler site_platform negative_depth_options) = []"
proof -
  have 1: "maxDepth negative_depth_options = - 1"
    by (simp add: negative_depth_options_def config_js_def)
  have 2: "queue (frontier (seed site_platform negative_depth_options
      (new_WebCrawler site_platform negative_depth_options)))
     = [\<lparr>url = ''http://a.com'', depth = 0\<rparr>]"
    by code_simp
  have 3: "crawl_step site_platform negative_depth_options
      (seed site_platform negative_depth_options
         (new_WebCrawler site_platform negative_depth_options))
     = Some ((new_WebCrawler site_platform negative_depth_options)
          \<lparr>frontier := \<lparr>queue = [], visited = [''http://a.com''], maxPages = Num 50\<rparr>\<rparr>)"
    by code_simp
  have 4: "trace (new_WebCrawler site_platform negative_depth_options) = []"
    by (simp add: new_WebCrawler_def)
  from 1 2 3 4 show ?thesis by blast
qed

text \<open>With a negative depth limit nothing is ever visited: whatever is in the frontier
  exceeds the limit, and an iteration can only drop the head of the queue.\<close>

lemma running_negative_depth:
  assumes "running E opts (new_WebCrawler E opts) s" and "maxDepth opts < 0"
  shows "(\<forall>e\<in>set (queue (frontier s)). depth e > maxDepth opts) \<and>
         trace s = [] \<and> pages (result s) = [] \<and> errors (result s) = []"
  using assms
proof (induction rule: running.induct)
  case seeded
  from add_queue [of E "baseUrl opts" 0 "frontier (new_WebCrawler E opts)"] seeded
  show ?case
    by (auto simp: seed_def new_WebCrawler_def new_URLQueue_def new_CrawlResult_def)
next
  case (stepped s s')
  from stepped.hyps(2) show ?case
  proof (cases rule: crawl_step_cases)
    case (skipped item rest)
    with stepped.IH [OF stepped.prems] show ?thesis by simp
  next
    case (crawled item rest s2)
    with stepped.IH [OF stepped.prems] show ?thesis by auto
  qed
qed

lemma crawl_step_negative_depth:
  assumes "running E opts (new_WebCrawler E opts) s" and "maxDepth opts < 0"
    and "crawl_step E opts s = Some s'"
  shows "\<exists>item rest. queue (frontier s) = item # rest \<and> depth item > maxDepth opts \<and>
           s' = s\<lparr>frontier := (frontier s)\<lparr>queue := rest\<rparr>\<rparr>"
  using assms(3)
proof (cases rule: crawl_step_cases)
  case (skipped item rest)
  then show ?thesis by blast
next
  case (crawled item rest s2)
  with running_negative_depth [OF assms(1,2)] show ?thesis by auto
qed

lemma seed_admitted:
  assumes "fst (add E (baseUrl opts) 0 (frontier (new_WebCrawler E opts)))"
  shows "\<exists>n. normalize E (baseUrl opts) = Some n \<and>
           queue (frontier (seed E opts (new_WebCrawler E opts))) = [\<lparr>url = n, depth = 0\<rparr>]"
  using add_cases [of E "baseUrl opts" 0 "frontier (new_WebCrawler E opts)"] assms
  by (auto simp: seed_def new_WebCrawler_def new_URLQueue_def)

lemma seed_dropped:
  assumes "maxDepth opts < 0"
    and "fst (add E (baseUrl opts) 0 (frontier (new_WebCrawler E opts)))"
    and "num_lt 0 (crawler_maxPages opts)"
  shows "crawl_step E opts (seed E opts (new_WebCrawler E opts))
         = Some ((seed E opts (new_WebCrawler E opts))
             \<lparr>frontier := (frontier (seed E opts (new_WebCrawler E opts)))\<lparr>queue := []\<rparr>\<rparr>)"
proof -
  let ?s = "seed E opts (new_WebCrawler E opts)"
  from seed_admitted [OF assms(2)] obtain n where q: "queue (frontier ?s) = [\<lparr>url = n, depth = 0\<rparr>]"
    by blast
  have "successfulPages (stats (result ?s)) = 0"
    by (simp add: seed_def new_WebCrawler_def new_CrawlResult_def)
  with q assms(1,3) show ?thesis
    by (simp add: crawl_step_def hasMore_def next_q_def Let_def)
qed

lemma trace_crawl:
  "trace (crawl E opts s0) = trace (crawl_loop E opts (seed E opts s0))"
  by (simp add: crawl_def Let_def)

text \<open>
  C4, amended. No page record of a crawl, at any time and in the final result, has
  \<open>depth > maxDepth\<close>. A page visit at depth \<open>d\<close> inserts entries only at depth \<open>d + 1\<close>
  and only when \<open>d < maxDepth\<close>: a discovered link that would exceed \<open>maxDepth\<close> is
  dropped before insertion. The seed is inserted at depth 0 unconditionally, so when
  \<open>maxDepth \<ge> 0\<close> no entry of the frontier ever exceeds \<open>maxDepth\<close>. When
  \<open>maxDepth < 0\<close> an admitted seed is the one entry of the frontier and exceeds
  \<open>maxDepth\<close>; every iteration of the loop is then a drop after dequeue by the loop's
  depth guard (for the seed it takes place as soon as the page budget lets the loop
  run), and the run visits and records nothing.
\<close>

theorem C4_depth_bound:
  "(\<forall>p\<in>set (pages (result (crawl E opts (new_WebCrawler E opts)))). depth p \<le> maxDepth opts) \<and>
   (running E opts (new_WebCrawler E opts) s' \<longrightarrow>
      (\<forall>p\<in>set (pages (result s')). depth p \<le> maxDepth opts)) \<and>
   (\<forall>e\<in>set (queue (frontier (crawlPage E opts u d s))).
      e \<in> set (queue (frontier s)) \<or> (depth e = d + 1 \<and> d < maxDepth opts)) \<and>
   (0 \<le> maxDepth opts \<and> running E opts (new_WebCrawler E opts) s' \<longrightarrow>
      (\<forall>e\<in>set (queue (frontier s')). depth e \<le> maxDepth opts)) \<and>
   (fst (add E (baseUrl opts) 0 (frontier (new_WebCrawler E opts))) \<longrightarrow>
      (\<exists>n. normalize E (baseUrl opts) = Some n \<and>
           queue (frontier (seed E opts (new_WebCrawler E opts))) = [\<lparr>url = n, depth = 0\<rparr>])) \<and>
   (maxDepth opts < 0 \<and> running E opts (new_WebCrawler E opts) s' \<longrightarrow>
      (\<forall>e\<in>set (queue (frontier s')). depth e > maxDepth opts) \<and>
      trace s' = [] \<and> pages (result s') = [] \<and> errors (result s') = []) \<and>
   (maxDepth opts < 0 \<and> running E opts (new_WebCrawler E opts) s' \<and>
    crawl_step E opts s' = Some s'' \<longrightarrow>
      (\<exists>item rest. queue (frontier s') = item # rest \<and> depth item > maxDepth opts \<and>
           s'' = s'\<lparr>frontier := (frontier s')\<lparr>queue := rest\<rparr>\<rparr>)) \<and>
   (maxDepth opts < 0 \<and> fst (add E (baseUrl opts) 0 (frontier (new_WebCrawler E opts))) \<and>
    num_lt 0 (crawler_maxPages opts) \<longrightarrow>
      crawl_step E opts (seed E opts (new_WebCrawler E opts))
        = Some ((seed E opts (new_WebCrawler E opts))
            \<lparr>frontier := (frontier (seed E opts (new_WebCrawler E opts)))\<lparr>queue := []\<rparr>\<rparr>)) \<and>
   (maxDepth opts < 0 \<longrightarrow>
      trace (crawl E opts (new_WebCrawler E opts)) = [] \<and>
      pages (result (crawl E opts (new_WebCrawler E opts))) = [])"
proof -
  let ?s0 = "new_WebCrawler E opts"
  have p0: "\<forall>p\<in>set (pages (result ?s0)). depth p \<le> maxDepth opts"
    and q0: "\<forall>e\<in>set (queue (frontier ?s0)). depth e \<le> maxDepth opts"
    by (simp_all add: new_WebCrawler_def new_CrawlResult_def new_URLQueue_def)
  have a: "\<forall>p\<in>set (pages (result (crawl E opts ?s0))). depth p \<le> maxDepth opts"
    using running_pages [OF running_crawl p0] by (simp add: pages_crawl)
  have b: "\<forall>p\<in>set (pages (result s')). depth p \<le> maxDepth opts"
    if "running E opts ?s0 s'"
    using running_pages [OF that p0] .
  have c: "\<forall>e\<in>set (queue (frontier (crawlPage E opts u d s))).
      e \<in> set (queue (frontier s)) \<or> (depth e = d + 1 \<and> d < maxDepth opts)"
    using crawlPage_queue [of E opts u d s] by auto
  have d: "\<forall>e\<in>set (queue (frontier s')). depth e \<le> maxDepth opts"
    if "0 \<le> maxDepth opts \<and> running E opts ?s0 s'"
    using that running_queue [OF _ _ q0] by blast
  have e: "fst (add E (baseUrl opts) 0 (frontier ?s0)) \<longrightarrow>
      (\<exists>n. normalize E (baseUrl opts) = Some n \<and>
           queue (frontier (seed E opts ?s0)) = [\<lparr>url = n, depth = 0\<rparr>])"
    using seed_admitted by blast
  have f: "(\<forall>e\<in>set (queue (frontier s')). depth e > maxDepth opts) \<and>
      trace s' = [] \<and> pages (result s') = [] \<and> errors (result s') = []"
    if "maxDepth opts < 0 \<and> running E opts ?s0 s'"
    using that running_negative_depth [of E opts s'] by (elim conjE) simp
  have g: "\<exists>item rest. queue (frontier s') = item # rest \<and> depth item > maxDepth opts \<and>
           s'' = s'\<lparr>frontier := (frontier s')\<lparr>queue := rest\<rparr>\<rparr>"
    if "maxDepth opts < 0 \<and> running E opts ?s0 s' \<and> crawl_step E opts s' = Some s''"
    using that crawl_step_negative_depth [of E opts s' s''] by (elim conjE) simp
  have h: "crawl_step E opts (seed E opts ?s0)
        = Some ((seed E opts ?s0)\<lparr>frontier := (frontier (seed E opts ?s0))\<lparr>queue := []\<rparr>\<rparr>)"
    if "maxDepth opts < 0 \<and> fst (add E (baseUrl opts) 0 (frontier ?s0)) \<and>
        num_lt 0 (crawler_maxPages opts)"
    using that seed_dropped [of opts E] by (elim conjE) simp
  have i: "trace (crawl E opts ?s0) = [] \<and> pages (result (crawl E opts ?s0)) = []"
    if "maxDepth opts < 0"
    using running_negative_depth [OF running_crawl that, of E]
    by (simp add: trace_crawl pages_crawl)
  show ?thesis
    using a b c d e f g h i by (intro conjI impI) simp_all
qed

theorem C4_depth_bound_witness:
  "0 \<le> maxDepth site_options \<and>
   running site_platform site_options (new_WebCrawler site_platform site_options)
     (the (crawl_step site_platform site_options
        (seed site_platform site_options (new_WebCrawler site_platform site_options)))) \<and>
   map depth (queue (frontier (the (crawl_step site_platform site_options
        (seed site_platform site_options (new_WebCrawler site_platform site_options))))))
     = [1, 1] \<and>
   list_all (\<lambda>e. depth e \<le> maxDepth site_options)
     (queue (frontier (the (crawl_step site_platform site_options
        (seed site_platform site_options (new_WebCrawler site_platform site_options)))))) \<and>
   list_all (\<lambda>p. depth p \<le> maxDepth site_options)
     (pages (result (crawl site_platform site_options
        (new_WebCrawler site_platform site_options)))) \<and>
   map depth (pages (result (crawl site_platform site_options
        (new_WebCrawler site_platform site_options)))) = [0, 1, 1, 2] \<and>
   maxDepth negative_depth_options < 0 \<and>
   fst (add site_platform (baseUrl negative_depth_options) 0
          (frontier (new_WebCrawler site_platform negative_depth_options))) \<and>
   num_lt 0 (crawler_maxPages negative_depth_options) \<and>
   queue (frontier (seed site_platform negative_depth_options
            (new_WebCrawler site_platform negative_depth_options)))
     = [\<lparr>url = ''http://a.com'', depth = 0\<rparr>] \<and>
   list_all (\<lambda>e. depth e > maxDepth negative_depth_options)
     (queue (frontier (seed site_platform negative_depth_options
        (new_WebCrawler site_platform negative_depth_options)))) \<and>
   crawl_step site_platform negative_depth_options
       (seed site_platform negative_depth_options
          (new_WebCrawler site_platform negative_depth_options))
     = Some ((seed site_platform negative_depth_options
                (new_WebCrawler site_platform negative_depth_options))
          \<lparr>frontier := (frontier (seed site_platform negative_depth_options
                (new_WebCrawler site_platform negative_depth_options)))\<lparr>queue := []\<rparr>\<rparr>) \<and>
   trace (crawl site_platform negative_depth_options
            (new_WebCrawler site_platform negative_depth_options)) = [] \<and>
   pages (result (crawl site_platform negative_depth_options
            (new_WebCrawler site_platform negative_depth_options))) = []"
proof -
  let ?s0 = "new_WebCrawler site_platform site_options"
  let ?s1 = "the (crawl_step site_platform site_options (seed site_platform site_options ?s0))"
  have m: "0 \<le> maxDepth site_options"
    by (simp add: site_options_def config_js_def)
  have "crawl_step site_platform site_options (seed site_platform site_options ?s0) \<noteq> None"
    by code_simp
  then have "crawl_step site_platform site_options (seed site_platform site_options ?s0) = Some ?s1"
    by simp
  with running.seeded have r: "running site_platform site_options ?s0 ?s1"
    by (rule running.stepped)
  have q: "map depth (queue (frontier ?s1)) = [1, 1]"
    by code_simp
  have p: "map depth (pages (result (crawl site_platform site_options ?s0))) = [0, 1, 1, 2]"
    by code_simp
  note T = C4_depth_bound [of site_platform site_options ?s1 "''http://a.com''" 0 ?s0]
  have h: "0 \<le> maxDepth site_options \<and> running site_platform site_options ?s0 ?s1"
    using m r by blast
  from T [THEN conjunct2, THEN conjunct2, THEN conjunct2, THEN conjunct1, THEN mp, OF h]
  have a: "list_all (\<lambda>e. depth e \<le> maxDepth site_options) (queue (frontier ?s1))"
    by (simp add: list_all_iff)
  from T [THEN conjunct1]
  have b: "list_all (\<lambda>p. depth p \<le> maxDepth site_options)
             (pages (result (crawl site_platform site_options ?s0)))"
    by (simp add: list_all_iff)
  let ?n0 = "new_WebCrawler site_platform negative_depth_options"
  let ?n1 = "seed site_platform negative_depth_options ?n0"
  let ?n2 = "?n1\<lparr>frontier := (frontier ?n1)\<lparr>queue := []\<rparr>\<rparr>"
  have neg: "maxDepth negative_depth_options < 0"
    and bud: "num_lt 0 (crawler_maxPages negative_depth_options)"
    by (simp_all add: negative_depth_options_def config_js_def)
  have adm: "fst (add site_platform (baseUrl negative_depth_options) 0 (frontier ?n0))"
    by code_simp
  have nrm: "normalize site_platform (baseUrl negative_depth_options) = Some ''http://a.com''"
    by code_simp
  have run: "running site_platform negative_depth_options ?n0 ?n1"
    by (rule running.seeded)
  note N = C4_depth_bound [where E = site_platform and opts = negative_depth_options
      and s' = ?n1 and s'' = ?n2]
  from N [THEN conjunct2, THEN conjunct2, THEN conjunct2, THEN conjunct2, THEN conjunct1,
      THEN mp, OF adm] nrm
  have sq: "queue (frontier ?n1) = [\<lparr>url = ''http://a.com'', depth = 0\<rparr>]"
    by auto
  from neg run have "maxDepth negative_depth_options < 0 \<and>
      running site_platform negative_depth_options ?n0 ?n1"
    by (intro conjI)
  from N [THEN conjunct2, THEN conjunct2, THEN conjunct2, THEN conjunct2, THEN conjunct2,
      THEN conjunct1, THEN mp, OF this]
  have ex: "list_all (\<lambda>e. depth e > maxDepth negative_depth_options) (queue (frontier ?n1))"
    by (simp add: list_all_iff)
  from neg adm bud have "maxDepth negative_depth_options < 0 \<and>
      fst (add site_platform (baseUrl negative_depth_options) 0 (frontier ?n0)) \<and>
      num_lt 0 (crawler_maxPages negative_depth_options)"
    by (intro conjI)
  from N [THEN conjunct2, THEN conjunct2, THEN conjunct2, THEN conjunct2, THEN conjunct2,
      THEN conjunct2, THEN conjunct2, THEN conjunct1, THEN mp, OF this]
  have dr: "crawl_step site_platform negative_depth_options ?n1 = Some ?n2" .
  from neg run dr have "maxDepth negative_depth_options < 0 \<and>
      running site_platform negative_depth_options ?n0 ?n1 \<and>
      crawl_step site_platform negative_depth_options ?n1 = Some ?n2"
    by (intro conjI)
  note dq = N [THEN conjunct2, THEN conjunct2, THEN conjunct2, THEN conjunct2, THEN conjunct2,
      THEN conjunct2, THEN conjunct1, THEN mp, OF this]
  from N [THEN conjunct2, THEN conjunct2, THEN conjunct2, THEN conjunct2, THEN conjunct2,
      THEN conjunct2, THEN conjunct2, THEN conjunct2, THEN mp, OF neg]
  have tr: "trace (crawl site_platform negative_depth_options ?n0) = []"
    "pages (result (crawl site_platform negative_depth_options ?n0)) = []"
    by simp_all
  from m r q a b p neg adm bud sq ex dr tr show ?thesis by (intro conjI)
qed

subsection \<open>Queue discipline\<close>

lemma add_links_append:
  "\<exists>ns. subseq ns (List.map_filter (normalize E) ls) \<and>
        queue (add_links E ls d q) = queue q @ map (\<lambda>n. \<lparr>url = n, depth = d\<rparr>) ns"
proof (induction ls arbitrary: q)
  case Nil
  show ?case by (intro exI [of _ "[]"]) (simp add: List.map_filter_simps)
next
  case (Cons l ls)
  from Cons.IH [of "snd (add E l d q)"] obtain ns
    where ns: "subseq ns (List.map_filter (normalize E) ls)"
      "queue (add_links E ls d (snd (add E l d q)))
         = queue (snd (add E l d q)) @ map (\<lambda>n. \<lparr>url = n, depth = d\<rparr>) ns"
    by blast
  consider (refused) "add E l d q = (False, q)"
    | (admitted) n where "normalize E l = Some n"
        "add E l d q = (True, q\<lparr>queue := queue q @ [\<lparr>url = n, depth = d\<rparr>],
                                visited := visited q @ [n]\<rparr>)"
    using add_cases [of E l d q] by blast
  then show ?case
  proof cases
    case refused
    have "subseq ns (List.map_filter (normalize E) (l # ls))"
      using ns(1) by (cases "normalize E l") (auto simp: List.map_filter_simps intro: list_emb_Cons)
    with ns(2) refused show ?thesis by (intro exI [of _ ns]) simp
  next
    case admitted
    have "subseq (n # ns) (List.map_filter (normalize E) (l # ls))"
      using ns(1) admitted(1) by (simp add: List.map_filter_simps)
    with ns(2) admitted(2) show ?thesis by (intro exI [of _ "n # ns"]) simp
  qed
qed

lemma subseq_filterLinks:
  "filterLinks E opts ls = Some newLinks \<Longrightarrow> subseq newLinks (map href ls)"
  by (auto simp: filterLinks_def Let_def split: option.splits)

lemma try_visit_enqueues:
  assumes "fst (try_visit E opts u d pageStart s) = None" and "d < maxDepth opts"
    and "browse E (attempts s) u = Navigated response (Inr data)"
  shows "\<exists>newLinks. filterLinks E opts (ex_links data) = Some newLinks \<and>
           subseq newLinks (map href (ex_links data)) \<and>
           frontier (snd (try_visit E opts u d pageStart s))
             = add_links E newLinks (d + 1) (frontier s)"
proof -
  from assms obtain newLinks where f: "filterLinks E opts (ex_links data) = Some newLinks"
    by (cases "filterLinks E opts (ex_links data)")
       (auto simp: try_visit_def Let_def split: if_splits)
  with assms have "frontier (snd (try_visit E opts u d pageStart s))
                   = add_links E newLinks (d + 1) (frontier s)"
    by (auto simp: try_visit_def Let_def split: if_splits)
  with f subseq_filterLinks [OF f] show ?thesis by blast
qed

lemma try_visit_append:
  "\<exists>ns. queue (frontier (snd (try_visit E opts u d pageStart s)))
        = queue (frontier s) @ map (\<lambda>n. \<lparr>url = n, depth = d + 1\<rparr>) ns"
proof (cases "frontier (snd (try_visit E opts u d pageStart s)) = frontier s")
  case True
  then show ?thesis by (intro exI [of _ "[]"]) simp
next
  case False
  then obtain newLinks where
    "frontier (snd (try_visit E opts u d pageStart s)) = add_links E newLinks (d + 1) (frontier s)"
    by (auto simp: try_visit_def Let_def split: outcome.splits sum.splits option.splits if_splits)
  with add_links_append [of E newLinks "d + 1" "frontier s"] show ?thesis by auto
qed

lemma crawlPage_loop_append:
  "\<exists>ns. queue (frontier (crawlPage_loop E opts u d pageStart r s))
        = queue (frontier s) @ map (\<lambda>n. \<lparr>url = n, depth = d + 1\<rparr>) ns"
proof (induction E opts u d pageStart r s rule: crawlPage_loop.induct)
  case (1 E opts u d pageStart r s)
  show ?case
  proof (cases "r \<le> MAX_RETRIES opts")
    case False
    then have "crawlPage_loop E opts u d pageStart r s = s"
      by (subst crawlPage_loop.simps) simp
    then show ?thesis by (intro exI [of _ "[]"]) simp
  next
    case True
    show ?thesis
    proof (cases "fst (try_visit E opts u d pageStart s)")
      case None
      have "crawlPage_loop E opts u d pageStart r s = snd (try_visit E opts u d pageStart s)"
        using True None by (subst crawlPage_loop.simps) simp
      then show ?thesis using try_visit_append [of E opts u d pageStart s] by simp
    next
      case (Some err)
      have eq: "crawlPage_loop E opts u d pageStart r s
            = crawlPage_loop E opts u d pageStart (r + 1)
                (on_error E opts u err (r + 1) (snd (try_visit E opts u d pageStart s)))"
        using True Some by (subst crawlPage_loop.simps) simp
      have "frontier (snd (try_visit E opts u d pageStart s)) = frontier s"
        using Some try_visit_failed(2) [of E opts u d s err pageStart]
        by (simp add: fst_try_visit)
      with "1.IH" [OF True Some] eq show ?thesis by simp
    qed
  qed
qed

lemma crawlPage_append:
  "\<exists>ns. queue (frontier (crawlPage E opts u d s))
        = queue (frontier s) @ map (\<lambda>n. \<lparr>url = n, depth = d + 1\<rparr>) ns"
  using crawlPage_loop_append [of E opts u d "now E (ticks s)" 0 "s\<lparr>ticks := ticks s + 1\<rparr>"]
  by (simp add: crawlPage_def)

lemma level_order_skip: "level_order ps (d # qs) \<Longrightarrow> level_order ps qs"
  by (cases qs) (auto simp: level_order_def sorted_append)

lemma level_order_visit:
  assumes "level_order ps (d # qs)" and "ps' = ps \<or> ps' = ps @ [d]"
  shows "level_order ps' (qs @ replicate k (d + 1))"
proof -
  from assms(1) have s: "sorted ps" "sorted qs" "\<forall>x\<in>set ps. x \<le> d" "\<forall>x\<in>set qs. d \<le> x"
    "\<forall>x\<in>set qs. x \<le> d + 1"
    by (auto simp: level_order_def sorted_append)
  have 1: "sorted (ps' @ qs @ replicate k (d + 1))"
    using s assms(2) by (fastforce simp: sorted_append)
  have 2: "\<forall>x\<in>set (qs @ replicate k (d + 1)). x \<le> hd (qs @ replicate k (d + 1)) + 1"
  proof (cases qs)
    case Nil
    then show ?thesis by (cases k) auto
  next
    case (Cons q qs')
    with s(4,5) show ?thesis by auto
  qed
  from 1 2 show ?thesis by (simp add: level_order_def)
qed

lemma level_order_step:
  assumes "crawl_step E opts s = Some s'"
    and "level_order (map depth (pages (result s))) (map depth (queue (frontier s)))"
  shows "level_order (map depth (pages (result s'))) (map depth (queue (frontier s')))"
  using assms(1)
proof (cases rule: crawl_step_cases)
  case (skipped item rest)
  with assms(2) level_order_skip [of "map depth (pages (result s))" "depth item" "map depth rest"]
  show ?thesis by simp
next
  case (crawled item rest s2)
  let ?s1 = "s\<lparr>frontier := (frontier s)\<lparr>queue := rest\<rparr>\<rparr>"
  from crawlPage_append [of E opts "url item" "depth item" ?s1] crawled(3)
  obtain ns where "queue (frontier s2) = rest @ map (\<lambda>n. \<lparr>url = n, depth = depth item + 1\<rparr>) ns"
    by auto
  then have q: "map depth (queue (frontier s2))
                = map depth rest @ replicate (length ns) (depth item + 1)"
    by (simp add: map_replicate_const comp_def)
  from crawlPage_result [of "url item" "depth item" E opts ?s1] crawled(3)
  have p: "map depth (pages (result s2)) = map depth (pages (result s)) \<or>
           map depth (pages (result s2)) = map depth (pages (result s)) @ [depth item]"
    by (auto simp: addPage_def addError_def)
  from assms(2) crawled(1)
  have "level_order (map depth (pages (result s))) (depth item # map depth rest)" by simp
  from level_order_visit [OF this p, of "length ns"] q crawled(4)
  show ?thesis by simp
qed

lemma running_level_order:
  assumes "running E opts (new_WebCrawler E opts) s"
  shows "level_order (map depth (pages (result s))) (map depth (queue (frontier s)))"
  using assms
proof (induction rule: running.induct)
  case seeded
  from add_cases [of E "baseUrl opts" 0 "frontier (new_WebCrawler E opts)"]
  show ?case
    by (auto simp: seed_def new_WebCrawler_def new_URLQueue_def new_CrawlResult_def level_order_def)
next
  case (stepped s s')
  then show ?case using level_order_step by blast
qed

lemma next_q_add:
  assumes "fst (add E u d q)" and "queue q = e # es"
  shows "fst (next_q (snd (add E u d q))) = Some e"
  using add_cases [of E u d q] assms by (auto simp: next_q_def)

text \<open>
  C5. \<open>next()\<close> takes the head of the queue and \<open>add\<close> appends at its end, so an entry
  admitted while others wait comes out after them. The links of a page are filtered in
  the order the extractor returned them and added in that order at \<open>depth + 1\<close>; what
  a page visit adds to the queue is appended after everything already waiting. Hence
  pages are recorded level by level (their depths never decrease), and on the site
  where A links to B and C and B links to D, with \<open>maxDepth = 2\<close>, the pages are
  visited and recorded in the order A, B, C, D.
\<close>

theorem C5_fifo_breadth_first:
  "(queue q = e # es \<longrightarrow> next_q q = (Some e, q\<lparr>queue := es\<rparr>)) \<and>
   (queue q = [] \<longrightarrow> next_q q = (None, q)) \<and>
   (fst (add E u d q) \<and> queue q = e # es \<longrightarrow> fst (next_q (snd (add E u d q))) = Some e) \<and>
   (\<exists>ns. subseq ns (List.map_filter (normalize E) ls) \<and>
         queue (add_links E ls d q) = queue q @ map (\<lambda>n. \<lparr>url = n, depth = d\<rparr>) ns) \<and>
   (fst (try_visit E opts u d pageStart s) = None \<and> d < maxDepth opts \<and>
    browse E (attempts s) u = Navigated response (Inr data) \<longrightarrow>
      (\<exists>newLinks. filterLinks E opts (ex_links data) = Some newLinks \<and>
          subseq newLinks (map href (ex_links data)) \<and>
          frontier (snd (try_visit E opts u d pageStart s))
            = add_links E newLinks (d + 1) (frontier s))) \<and>
   (\<exists>ns. queue (frontier (crawlPage E opts u d s))
         = queue (frontier s) @ map (\<lambda>n. \<lparr>url = n, depth = d + 1\<rparr>) ns) \<and>
   sorted (map depth (pages (result (crawl E opts (new_WebCrawler E opts))))) \<and>
   map url (pages (result (crawl site_platform site_options
      (new_WebCrawler site_platform site_options))))
     = [''http://a.com'', ''http://a.com/b'', ''http://a.com/c'', ''http://a.com/d''] \<and>
   visits (trace (crawl site_platform site_options (new_WebCrawler site_platform site_options)))
     = [''http://a.com'', ''http://a.com/b'', ''http://a.com/c'', ''http://a.com/d'']"
proof -
  have 1: "queue q = e # es \<longrightarrow> next_q q = (Some e, q\<lparr>queue := es\<rparr>)"
    and 2: "queue q = [] \<longrightarrow> next_q q = (None, q)"
    by (simp_all add: next_q_def)
  have 3: "fst (add E u d q) \<and> queue q = e # es \<longrightarrow> fst (next_q (snd (add E u d q))) = Some e"
    using next_q_add by blast
  note 4 = add_links_append [of E ls d q]
  have 5: "fst (try_visit E opts u d pageStart s) = None \<and> d < maxDepth opts \<and>
    browse E (attempts s) u = Navigated response (Inr data) \<longrightarrow>
      (\<exists>newLinks. filterLinks E opts (ex_links data) = Some newLinks \<and>
          subseq newLinks (map href (ex_links data)) \<and>
          frontier (snd (try_visit E opts u d pageStart s))
            = add_links E newLinks (d + 1) (frontier s))"
    using try_visit_enqueues by blast
  note 6 = crawlPage_append [of E opts u d s]
  have 7: "sorted (map depth (pages (result (crawl E opts (new_WebCrawler E opts)))))"
    using running_level_order [OF running_crawl, of E opts]
    by (simp add: pages_crawl level_order_def sorted_append)
  have 8: "map url (pages (result (crawl site_platform site_options
      (new_WebCrawler site_platform site_options))))
     = [''http://a.com'', ''http://a.com/b'', ''http://a.com/c'', ''http://a.com/d'']"
    by code_simp
  have 9: "visits (trace (crawl site_platform site_options
      (new_WebCrawler site_platform site_options)))
     = [''http://a.com'', ''http://a.com/b'', ''http://a.com/c'', ''http://a.com/d'']"
    by code_simp
  from 1 2 3 4 5 6 7 8 9 show ?thesis by (intro conjI)
qed

theorem C5_fifo_breadth_first_witness:
  "queue (snd (add site_platform ''http://a.com/'' 0 (new_URLQueue (Num 50))))
     = [\<lparr>url = ''http://a.com'', depth = 0\<rparr>] \<and>
   fst (next_q (snd (add site_platform ''http://a.com/'' 0 (new_URLQueue (Num 50)))))
     = Some \<lparr>url = ''http://a.com'', depth = 0\<rparr> \<and>
   queue (snd (next_q (snd (add site_platform ''http://a.com/'' 0 (new_URLQueue (Num 50)))))) = [] \<and>
   next_q (new_URLQueue (Num 50)) = (None, new_URLQueue (Num 50)) \<and>
   fst (add site_platform ''http://a.com/b'' 1
          (snd (add site_platform ''http://a.com/'' 0 (new_URLQueue (Num 50))))) \<and>
   fst (next_q (snd (add site_platform ''http://a.com/b'' 1
          (snd (add site_platform ''http://a.com/'' 0 (new_URLQueue (Num 50)))))))
     = Some \<lparr>url = ''http://a.com'', depth = 0\<rparr> \<and>
   fst (try_visit site_platform site_options ''http://a.com'' 0 0
          (new_WebCrawler site_platform site_options)) = None \<and>
   frontier (snd (try_visit site_platform site_options ''http://a.com'' 0 0
          (new_WebCrawler site_platform site_options)))
     = add_links site_platform [''http://a.com/b'', ''http://a.com/c''] 1
         (frontier (new_WebCrawler site_platform site_options)) \<and>
   queue (frontier (snd (try_visit site_platform site_options ''http://a.com'' 0 0
          (new_WebCrawler site_platform site_options))))
     = [\<lparr>url = ''http://a.com/b'', depth = 1\<rparr>, \<lparr>url = ''http://a.com/c'', depth = 1\<rparr>]"
proof -
  let ?q0 = "snd (add site_platform ''http://a.com/'' 0 (new_URLQueue (Num 50)))"
  let ?eA = "\<lparr>url = ''http://a.com'', depth = 0\<rparr>"
  let ?s0 = "new_WebCrawler site_platform site_options"
  let ?data = "page_with ''http://a.com'' [''http://a.com/b'', ''http://a.com/c'']"
  have q0: "queue ?q0 = ?eA # []"
    by code_simp
  have e: "queue (new_URLQueue (Num 50)) = []"
    by (simp add: new_URLQueue_def)
  have adm: "fst (add site_platform ''http://a.com/b'' 1 ?q0)"
    by code_simp
  have tv: "fst (try_visit site_platform site_options ''http://a.com'' 0 0 ?s0) = None"
    by code_simp
  have md: "0 < maxDepth site_options"
    by (simp add: site_options_def config_js_def)
  have br: "browse site_platform (attempts ?s0) ''http://a.com'' = Navigated (Some 200) (Inr ?data)"
    by (simp add: site_platform_def plain_platform_def site_web_def site_links_def)
  have fl: "filterLinks site_platform site_options (ex_links ?data)
            = Some [''http://a.com/b'', ''http://a.com/c'']"
    by code_simp
  note A = C5_fifo_breadth_first [where q = ?q0 and e = ?eA and es = "[]"
      and E = site_platform and u = "''http://a.com/b''" and d = 1]
  note B = C5_fifo_breadth_first [where q = "new_URLQueue (Num 50)"
      and E = site_platform and opts = site_options and u = "''http://a.com''" and d = 0
      and pageStart = 0 and s = ?s0 and response = "Some 200" and data = ?data]
  from A [THEN conjunct1, THEN mp, OF q0]
  have 1: "fst (next_q ?q0) = Some ?eA" "queue (snd (next_q ?q0)) = []"
    by simp_all
  from B [THEN conjunct2, THEN conjunct1, THEN mp, OF e]
  have 2: "next_q (new_URLQueue (Num 50)) = (None, new_URLQueue (Num 50))" .
  from adm q0 have "fst (add site_platform ''http://a.com/b'' 1 ?q0) \<and> queue ?q0 = ?eA # []"
    by blast
  from A [THEN conjunct2, THEN conjunct2, THEN conjunct1, THEN mp, OF this]
  have 3: "fst (next_q (snd (add site_platform ''http://a.com/b'' 1 ?q0))) = Some ?eA" .
  from tv md br
  have "fst (try_visit site_platform site_options ''http://a.com'' 0 0 ?s0) = None \<and>
        0 < maxDepth site_options \<and>
        browse site_platform (attempts ?s0) ''http://a.com'' = Navigated (Some 200) (Inr ?data)"
    by blast
  from B [THEN conjunct2, THEN conjunct2, THEN conjunct2, THEN conjunct2, THEN conjunct1,
      THEN mp, OF this] fl
  have 5: "frontier (snd (try_visit site_platform site_options ''http://a.com'' 0 0 ?s0))
           = add_links site_platform [''http://a.com/b'', ''http://a.com/c''] 1 (frontier ?s0)"
    by auto
  have 6: "queue (frontier (snd (try_visit site_platform site_options ''http://a.com'' 0 0 ?s0)))
     = [\<lparr>url = ''http://a.com/b'', depth = 1\<rparr>, \<lparr>url = ''http://a.com/c'', depth = 1\<rparr>]"
    by code_simp
  from q0 1 2 adm 3 tv 5 6 show ?thesis by simp
qed

subsection \<open>Normalization\<close>

lemma endsWith_slash: "endsWith s ''/'' \<longleftrightarrow> s \<noteq> [] \<and> last s = CHR ''/''"
proof (cases s rule: rev_cases)
  case Nil
  then show ?thesis by (simp add: endsWith_def)
next
  case (snoc xs x)
  then show ?thesis by (simp add: endsWith_def)
qed

lemma normalize_None: "normalize E u = None \<longleftrightarrow> url_new E u = None"
  by (simp add: normalize_def Let_def split: option.splits)

lemma normalize_strips_one:
  assumes "url_new E u = Some p" and "normalize E u = Some n"
  shows "url_toString E (url_set_hash E p '''') = n @ ''/'' \<or>
         (url_toString E (url_set_hash E p '''') = n \<and> \<not> endsWith n ''/'')"
proof -
  let ?S = "url_toString E (url_set_hash E p '''')"
  show ?thesis
  proof (cases "endsWith ?S ''/''")
    case True
    then have "?S \<noteq> []" and l: "last ?S = CHR ''/''"
      by (simp_all add: endsWith_slash)
    then have "butlast ?S @ [last ?S] = ?S"
      by (intro append_butlast_last_id)
    with l have "?S = butlast ?S @ ''/''"
      by simp
    with assms True show ?thesis by (simp add: normalize_def Let_def)
  next
    case False
    with assms show ?thesis by (simp add: normalize_def Let_def)
  qed
qed

lemma add_refuses_visited:
  assumes "normalize E u = Some n" and "n \<in> set (visited q)"
  shows "add E u d q = (False, q)"
  using assms by (simp add: add_def)

lemma add_same_normal_form:
  assumes "normalize E u1 = normalize E u2" and "fst (add E u1 d1 q)"
  shows "add E u2 d2 (snd (add E u1 d1 q)) = (False, snd (add E u1 d1 q))"
proof -
  from add_cases [of E u1 d1 q] assms(2) obtain n where n: "normalize E u1 = Some n"
    "add E u1 d1 q = (True, q\<lparr>queue := queue q @ [\<lparr>url = n, depth = d1\<rparr>],
                             visited := visited q @ [n]\<rparr>)"
    by auto
  then have "n \<in> set (visited (snd (add E u1 d1 q)))" by simp
  with n(1) assms(1) show ?thesis by (intro add_refuses_visited [of E u2 n]) simp_all
qed

lemma URL_parse_rest_pathname:
  assumes "URL_parse_rest scheme r = Some p"
  shows "pathname p \<noteq> []"
  using assms [symmetric] unfolding URL_parse_rest_def Let_def
  by (simp split: if_splits)

lemma URL_parse_pathname:
  assumes "URL_parse u = Some p"
  shows "pathname p \<noteq> []"
proof (cases "startsWith u ''http://''")
  case True
  with assms show ?thesis by (simp add: URL_parse_def URL_parse_rest_pathname)
next
  case False
  with assms show ?thesis
    by (cases "startsWith u ''https://''") (simp_all add: URL_parse_def URL_parse_rest_pathname)
qed

lemma normalize_plain_no_query:
  assumes "URL_parse u = Some p" and "query p = None"
  shows "normalize (plain_platform clock web) u = normalize_as_specified u"
proof -
  let ?pre = "protocol p @ ''//'' @ hostname p"
  have ne: "pathname p \<noteq> []" using assms(1) by (rule URL_parse_pathname)
  have s: "URL_toString (URL_set_hash p '''') = ?pre @ pathname p"
    using assms(2) by (simp add: URL_toString_def URL_set_hash_def)
  have e: "endsWith (?pre @ pathname p) ''/'' \<longleftrightarrow> endsWith (pathname p) ''/''"
    using ne by (simp add: endsWith_slash)
  have b: "butlast (?pre @ pathname p) = ?pre @ butlast (pathname p)"
    using ne by (simp add: butlast_append)
  have "normalize (plain_platform clock web) u
        = Some (if endsWith (pathname p) ''/'' then ?pre @ butlast (pathname p)
                else ?pre @ pathname p)"
    using assms(1) s e b by (simp add: normalize_def plain_platform_def Let_def)
  moreover have "normalize_as_specified u
        = Some (if endsWith (pathname p) ''/'' then ?pre @ butlast (pathname p)
                else ?pre @ pathname p)"
    using assms by (simp add: normalize_as_specified_def URL_toString_def)
  ultimately show ?thesis by simp
qed

text \<open>
  C8, as the specification states it, fails: the slash that \<open>normalize\<close> strips is the
  last character of the serialized URL, not of the path. When a query follows, the
  trailing slash of the path stays, so two URLs whose paths differ only by it are two
  frontier entries; and a query ending in a slash loses it.
\<close>

theorem C8_trailing_slash_of_path_counterexample:
  "map_option pathname (URL_parse ''http://a.com/x/?q=1'') = Some ''/x/'' \<and>
   normalize site_platform ''http://a.com/x/?q=1'' = Some ''http://a.com/x/?q=1'' \<and>
   normalize_as_specified ''http://a.com/x/?q=1'' = Some ''http://a.com/x?q=1'' \<and>
   normalize site_platform ''http://a.com/x?q=1'' = Some ''http://a.com/x?q=1'' \<and>
   map url (queue (snd (add site_platform ''http://a.com/x?q=1'' 1
             (snd (add site_platform ''http://a.com/x/?q=1'' 1 (new_URLQueue (Num 50)))))))
     = [''http://a.com/x/?q=1'', ''http://a.com/x?q=1''] \<and>
   normalize site_platform ''http://a.com/x?q=/'' = Some ''http://a.com/x?q='' \<and>
   normalize_as_specified ''http://a.com/x?q=/'' = Some ''http://a.com/x?q=/''"
proof -
  have 1: "map_option pathname (URL_parse ''http://a.com/x/?q=1'') = Some ''/x/''"
    by code_simp
  have 2: "normalize site_platform ''http://a.com/x/?q=1'' = Some ''http://a.com/x/?q=1''"
    by code_simp
  have 3: "normalize_as_specified ''http://a.com/x/?q=1'' = Some ''http://a.com/x?q=1''"
    by code_simp
  have 4: "normalize site_platform ''http://a.com/x?q=1'' = Some ''http://a.com/x?q=1''"
    by code_simp
  have 5: "map url (queue (snd (add site_platform ''http://a.com/x?q=1'' 1
             (snd (add site_platform ''http://a.com/x/?q=1'' 1 (new_URLQueue (Num 50)))))))
     = [''http://a.com/x/?q=1'', ''http://a.com/x?q=1'']"
    by code_simp
  have 6: "normalize site_platform ''http://a.com/x?q=/'' = Some ''http://a.com/x?q=''"
    by code_simp
  have 7: "normalize_as_specified ''http://a.com/x?q=/'' = Some ''http://a.com/x?q=/''"
    by code_simp
  from 1 2 3 4 5 6 7 show ?thesis by (intro conjI)
qed

text \<open>
  C8, amended. \<open>normalize\<close> parses the URL, empties the fragment, serializes, and strips a
  single trailing slash from the end of the serialized URL: the result is the
  serialization, or the serialization without its final slash. On the \<open>URL\<close> model, for
  a URL without a query, that is the URL with the fragment stripped and a single
  trailing slash stripped from the path. Two URLs that normalize identically are one
  frontier entry: after one is admitted the other is refused and the queue stays as it
  is. A URL that does not parse makes \<open>add\<close> return false and change nothing; no error
  is raised.
\<close>

theorem C8_normalize:
  "(url_new E u = None \<longrightarrow> normalize E u = None \<and> add E u d q = (False, q)) \<and>
   (url_new E u \<noteq> None \<longrightarrow> normalize E u \<noteq> None) \<and>
   (url_new E u = Some p \<and> normalize E u = Some n \<longrightarrow>
      url_toString E (url_set_hash E p '''') = n @ ''/'' \<or>
      (url_toString E (url_set_hash E p '''') = n \<and> \<not> endsWith n ''/'')) \<and>
   (normalize E u = normalize E u2 \<and> fst (add E u d q) \<longrightarrow>
      add E u2 d2 (snd (add E u d q)) = (False, snd (add E u d q))) \<and>
   (URL_parse u = Some r \<and> query r = None \<longrightarrow>
      normalize (plain_platform clock web) u = normalize_as_specified u)"
proof -
  have 1: "url_new E u = None \<longrightarrow> normalize E u = None \<and> add E u d q = (False, q)"
    by (simp add: normalize_def add_def)
  have 2: "url_new E u \<noteq> None \<longrightarrow> normalize E u \<noteq> None"
    by (simp add: normalize_None)
  have 3: "url_new E u = Some p \<and> normalize E u = Some n \<longrightarrow>
      url_toString E (url_set_hash E p '''') = n @ ''/'' \<or>
      (url_toString E (url_set_hash E p '''') = n \<and> \<not> endsWith n ''/'')"
  proof (intro impI)
    assume a: "url_new E u = Some p \<and> normalize E u = Some n"
    show "url_toString E (url_set_hash E p '''') = n @ ''/'' \<or>
      (url_toString E (url_set_hash E p '''') = n \<and> \<not> endsWith n ''/'')"
      using normalize_strips_one [OF a [THEN conjunct1] a [THEN conjunct2]] .
  qed
  have 4: "normalize E u = normalize E u2 \<and> fst (add E u d q) \<longrightarrow>
      add E u2 d2 (snd (add E u d q)) = (False, snd (add E u d q))"
  proof (intro impI)
    assume a: "normalize E u = normalize E u2 \<and> fst (add E u d q)"
    show "add E u2 d2 (snd (add E u d q)) = (False, snd (add E u d q))"
      using add_same_normal_form [OF a [THEN conjunct1] a [THEN conjunct2]] .
  qed
  have 5: "URL_parse u = Some r \<and> query r = None \<longrightarrow>
      normalize (plain_platform clock web) u = normalize_as_specified u"
  proof (intro impI)
    assume a: "URL_parse u = Some r \<and> query r = None"
    show "normalize (plain_platform clock web) u = normalize_as_specified u"
      using normalize_plain_no_query [OF a [THEN conjunct1] a [THEN conjunct2]] .
  qed
  from 1 2 3 4 5 show ?thesis by (intro conjI)
qed

theorem C8_normalize_witness:
  "url_new site_platform ''nonsense'' = None \<and>
   add site_platform ''nonsense'' 0 (new_URLQueue (Num 50)) = (False, new_URLQueue (Num 50)) \<and>
   normalize site_platform ''http://a.com/x/#top'' = Some ''http://a.com/x'' \<and>
   normalize site_platform ''http://a.com/x'' = Some ''http://a.com/x'' \<and>
   fst (add site_platform ''http://a.com/x/#top'' 1 (new_URLQueue (Num 50))) \<and>
   \<not> fst (add site_platform ''http://a.com/x'' 2
           (snd (add site_platform ''http://a.com/x/#top'' 1 (new_URLQueue (Num 50))))) \<and>
   map_option query (URL_parse ''http://a.com/x/#top'') = Some None \<and>
   normalize_as_specified ''http://a.com/x/#top'' = Some ''http://a.com/x''"
proof -
  let ?q = "new_URLQueue (Num 50)"
  have p: "url_new site_platform ''nonsense'' = None"
    by code_simp
  have n1: "normalize site_platform ''http://a.com/x/#top'' = Some ''http://a.com/x''"
    and n2: "normalize site_platform ''http://a.com/x'' = Some ''http://a.com/x''"
    by code_simp+
  have adm: "fst (add site_platform ''http://a.com/x/#top'' 1 ?q)"
    by code_simp
  have q: "map_option query (URL_parse ''http://a.com/x/#top'') = Some None"
    by code_simp
  then obtain r where r: "URL_parse ''http://a.com/x/#top'' = Some r" "query r = None"
    by (cases "URL_parse ''http://a.com/x/#top''") simp_all
  note A = C8_normalize [where E = site_platform and u = "''nonsense''" and d = 0 and q = ?q]
  note B = C8_normalize [where E = site_platform and u = "''http://a.com/x/#top''" and d = 1
      and q = ?q and ?u2.0 = "''http://a.com/x''" and ?d2.0 = 2 and r = r
      and clock = tick_clock and web = site_web]
  from A [THEN conjunct1, THEN mp, OF p]
  have 1: "add site_platform ''nonsense'' 0 ?q = (False, ?q)" by simp
  from n1 n2 adm
  have "normalize site_platform ''http://a.com/x/#top'' = normalize site_platform ''http://a.com/x''
        \<and> fst (add site_platform ''http://a.com/x/#top'' 1 ?q)"
    by simp
  from B [THEN conjunct2, THEN conjunct2, THEN conjunct2, THEN conjunct1, THEN mp, OF this]
  have 2: "\<not> fst (add site_platform ''http://a.com/x'' 2
                  (snd (add site_platform ''http://a.com/x/#top'' 1 ?q)))"
    by simp
  from r have "URL_parse ''http://a.com/x/#top'' = Some r \<and> query r = None" by (intro conjI)
  from B [THEN conjunct2, THEN conjunct2, THEN conjunct2, THEN conjunct2, THEN mp, OF this] n1
  have 3: "normalize_as_specified ''http://a.com/x/#top'' = Some ''http://a.com/x''"
    by (simp add: site_platform_def)
  from p 1 n1 n2 adm 2 q 3 show ?thesis by (intro conjI)
qed

subsection \<open>The CSV report\<close>

lemma count_double_quotes:
  "length (filter (\<lambda>c. c = dquote) (double_quotes t)) = 2 * length (filter (\<lambda>c. c = dquote) t)"
  by (induction t) (simp_all add: double_quotes_def)

lemma csv_row_joined:
  "join '','' (csv_row p) =
     [dquote] @ url p @ [dquote] @ '','' @ show_int (depth p) @ '','' @
     [dquote] @ double_quotes (title p) @ [dquote] @ '','' @ show_nat (statusCode p) @ '','' @
     show_int (loadTime p) @ '','' @ show_nat (length (links p)) @ '','' @
     show_nat (length (images p)) @ '','' @ timestamp p"
  by (simp add: csv_row_def)

lemma csv_header_joined:
  "join '','' csv_headers = ''url,depth,title,statusCode,loadTime,linksCount,imagesCount,timestamp''"
  by (simp add: csv_headers_def)

text \<open>
  C9, as the specification states it, fails: the timestamp is a string field and is
  written without quotes, and the header names the fifth column \<open>loadTime\<close>.
\<close>

theorem C9_timestamp_unquoted_counterexample:
  "csv [dated_page] =
     ''url,depth,title,statusCode,loadTime,linksCount,imagesCount,timestamp'' @ [newline] @
     [dquote] @ ''http://a.com'' @ [dquote] @ '',0,'' @
     [dquote] @ ''a'' @ [dquote, dquote] @ ''b'' @ [dquote] @
     '',200,20,1,0,2024-01-01T00:00:00.000Z'' \<and>
   csv_as_specified [dated_page] =
     ''url,depth,title,statusCode,loadTimeMs,linksCount,imagesCount,timestamp'' @ [newline] @
     [dquote] @ ''http://a.com'' @ [dquote] @ '',0,'' @
     [dquote] @ ''a'' @ [dquote, dquote] @ ''b'' @ [dquote] @
     '',200,20,1,0,'' @ [dquote] @ ''2024-01-01T00:00:00.000Z'' @ [dquote] \<and>
   csv [dated_page] \<noteq> csv_as_specified [dated_page] \<and>
   last (csv_row dated_page) = ''2024-01-01T00:00:00.000Z'' \<and>
   last (csv_row dated_page) \<noteq> csv_quoted (timestamp dated_page)"
proof -
  have 1: "csv [dated_page] =
     ''url,depth,title,statusCode,loadTime,linksCount,imagesCount,timestamp'' @ [newline] @
     [dquote] @ ''http://a.com'' @ [dquote] @ '',0,'' @
     [dquote] @ ''a'' @ [dquote, dquote] @ ''b'' @ [dquote] @
     '',200,20,1,0,2024-01-01T00:00:00.000Z''"
    by code_simp
  have 2: "csv_as_specified [dated_page] =
     ''url,depth,title,statusCode,loadTimeMs,linksCount,imagesCount,timestamp'' @ [newline] @
     [dquote] @ ''http://a.com'' @ [dquote] @ '',0,'' @
     [dquote] @ ''a'' @ [dquote, dquote] @ ''b'' @ [dquote] @
     '',200,20,1,0,'' @ [dquote] @ ''2024-01-01T00:00:00.000Z'' @ [dquote]"
    by code_simp
  have 3: "csv [dated_page] \<noteq> csv_as_specified [dated_page]"
    by code_simp
  have 4: "last (csv_row dated_page) = ''2024-01-01T00:00:00.000Z''"
    by code_simp
  have 5: "last (csv_row dated_page) \<noteq> csv_quoted (timestamp dated_page)"
    by code_simp
  from 1 2 3 4 5 show ?thesis by (intro conjI)
qed

text \<open>
  C9, amended. In CSV mode \<open>saveResults\<close> writes a CSV file (no JSON report) that
  consists of the header row \<open>url,depth,title,statusCode,loadTime,linksCount,imagesCount,timestamp\<close>
  followed by exactly one row per recorded page, in order, the rows separated by
  newlines. In a row the URL is wrapped in double quotes, the title is wrapped in
  double quotes with every internal double quote doubled, and the depth, status code,
  load time, link count, image count and timestamp are written unquoted.
\<close>

theorem C9_csv_rows:
  "csv ps =
     join [newline]
       (''url,depth,title,statusCode,loadTime,linksCount,imagesCount,timestamp'' #
        map (\<lambda>p. [dquote] @ url p @ [dquote] @ '','' @ show_int (depth p) @ '','' @
                  [dquote] @ double_quotes (title p) @ [dquote] @ '','' @
                  show_nat (statusCode p) @ '','' @ show_int (loadTime p) @ '','' @
                  show_nat (length (links p)) @ '','' @ show_nat (length (images p)) @ '','' @
                  timestamp p) ps) \<and>
   length (filter (\<lambda>c. c = dquote) (double_quotes t)) = 2 * length (filter (\<lambda>c. c = dquote) t) \<and>
   (dquote \<notin> set t \<longrightarrow> double_quotes t = t) \<and>
   (format opts = ''csv'' \<longrightarrow>
      saveResults E opts s =
        CsvFile (csv (pages (result s))) #
        (if length (errors (result s)) > 0 then [ErrorsFile (errors (result s))] else []))"
proof -
  have 1: "csv ps =
     join [newline]
       (''url,depth,title,statusCode,loadTime,linksCount,imagesCount,timestamp'' #
        map (\<lambda>p. [dquote] @ url p @ [dquote] @ '','' @ show_int (depth p) @ '','' @
                  [dquote] @ double_quotes (title p) @ [dquote] @ '','' @
                  show_nat (statusCode p) @ '','' @ show_int (loadTime p) @ '','' @
                  show_nat (length (links p)) @ '','' @ show_nat (length (images p)) @ '','' @
                  timestamp p) ps)"
    unfolding csv_def map_map comp_def csv_row_joined csv_header_joined ..
  have 3: "dquote \<notin> set t \<longrightarrow> double_quotes t = t"
    by (induction t) (simp_all add: double_quotes_def)
  have 4: "format opts = ''csv'' \<longrightarrow>
      saveResults E opts s =
        CsvFile (csv (pages (result s))) #
        (if length (errors (result s)) > 0 then [ErrorsFile (errors (result s))] else [])"
    by (simp add: saveResults_def)
  from 1 count_double_quotes [of t] 3 4 show ?thesis by (intro conjI)
qed

theorem C9_csv_rows_witness:
  "format csv_options = ''csv'' \<and>
   dquote \<notin> set ''plain'' \<and>
   double_quotes ''plain'' = ''plain'' \<and>
   saveResults site_platform csv_options
     ((new_WebCrawler site_platform csv_options)
        \<lparr>result := addPage dated_page (new_CrawlResult 0)\<rparr>)
   = [CsvFile
       (''url,depth,title,statusCode,loadTime,linksCount,imagesCount,timestamp'' @ [newline] @
        [dquote] @ ''http://a.com'' @ [dquote] @ '',0,'' @
        [dquote] @ ''a'' @ [dquote, dquote] @ ''b'' @ [dquote] @
        '',200,20,1,0,2024-01-01T00:00:00.000Z'')]"
proof -
  let ?s = "(new_WebCrawler site_platform csv_options)
              \<lparr>result := addPage dated_page (new_CrawlResult 0)\<rparr>"
  have f: "format csv_options = ''csv''"
    by (simp add: csv_options_def config_js_def)
  have d: "dquote \<notin> set ''plain''"
    by (simp add: dquote_def)
  have r: "pages (result ?s) = [dated_page]" "errors (result ?s) = []"
    by (simp_all add: addPage_def new_CrawlResult_def)
  have c: "csv [dated_page] =
     ''url,depth,title,statusCode,loadTime,linksCount,imagesCount,timestamp'' @ [newline] @
     [dquote] @ ''http://a.com'' @ [dquote] @ '',0,'' @
     [dquote] @ ''a'' @ [dquote, dquote] @ ''b'' @ [dquote] @
     '',200,20,1,0,2024-01-01T00:00:00.000Z''"
    by code_simp
  note T = C9_csv_rows [where t = "''plain''" and opts = csv_options and E = site_platform
      and s = ?s]
  from T [THEN conjunct2, THEN conjunct2, THEN conjunct1, THEN mp, OF d]
  have 1: "double_quotes ''plain'' = ''plain''" .
  from T [THEN conjunct2, THEN conjunct2, THEN conjunct2, THEN mp, OF f]
  have 2: "saveResults site_platform csv_options ?s = [CsvFile (csv [dated_page])]"
    unfolding r by simp
  from f d 1 2 c show ?thesis by simp
qed

subsection \<open>The signal handler\<close>

lemma crawl_step_not_finalized:
  assumes "crawl_step E opts s = Some s'"
    and "endTime (result s) = None \<and> duration (stats (result s)) = None"
  shows "endTime (result s') = None \<and> duration (stats (result s')) = None"
  using assms(1)
proof (cases rule: crawl_step_cases)
  case (skipped item rest)
  with assms(2) show ?thesis by simp
next
  case (crawled item rest s2)
  from crawlPage_result [of "url item" "depth item" E opts
      "s\<lparr>frontier := (frontier s)\<lparr>queue := rest\<rparr>\<rparr>"] crawled(3,4) assms(2)
  show ?thesis by (auto simp: addPage_def addError_def)
qed

lemma running_not_finalized:
  assumes "running E opts (new_WebCrawler E opts) s"
  shows "endTime (result s) = None \<and> duration (stats (result s)) = None"
  using assms
proof (induction rule: running.induct)
  case seeded
  show ?case by (simp add: seed_def new_WebCrawler_def new_CrawlResult_def)
next
  case (stepped s s')
  then show ?case using crawl_step_not_finalized by blast
qed

text \<open>
  C6. The handler of SIGINT and SIGTERM calls \<open>saveResults\<close> and exits with code 0, but
  it does not call \<open>finalize\<close>. In whatever state of the loop the signal finds the
  crawler, the result is not finalized (\<open>endTime\<close> and \<open>duration\<close> are unset), and the
  JSON report is written from it as it is: with the records collected so far, nothing
  recorded for the entries still in the frontier, the end time of the instant 0 and
  the duration \<open>NaNs\<close>. On the normal path \<open>crawl\<close> finalizes before \<open>saveResults\<close>.
\<close>

theorem C6_shutdown_skips_finalize:
  "(running E opts (new_WebCrawler E opts) s \<longrightarrow>
      endTime (result s) = None \<and> duration (stats (result s)) = None \<and>
      json_endTime (json_crawl (json_of E opts (result s))) = toISOString E 0 \<and>
      json_duration (json_crawl (json_of E opts (result s))) = ''NaNs'') \<and>
   snd (shutdown E opts s) = 0 \<and>
   (format opts = ''json'' \<longrightarrow>
      fst (shutdown E opts s) =
        JsonFile (json_of E opts (result s)) #
        (if length (errors (result s)) > 0 then [ErrorsFile (errors (result s))] else [])) \<and>
   json_pages (json_of E opts (result s)) = pages (result s) \<and>
   json_errors (json_of E opts (result s)) = errors (result s) \<and>
   json_stats (json_of E opts (result s)) = stats (result s) \<and>
   endTime (result (crawl E opts s)) \<noteq> None \<and>
   duration (stats (result (crawl E opts s))) \<noteq> None"
proof -
  have 1: "endTime (result s) = None \<and> duration (stats (result s)) = None \<and>
      json_endTime (json_crawl (json_of E opts (result s))) = toISOString E 0 \<and>
      json_duration (json_crawl (json_of E opts (result s))) = ''NaNs''"
    if "running E opts (new_WebCrawler E opts) s"
    using running_not_finalized [OF that] by (simp add: json_of_def)
  have 2: "snd (shutdown E opts s) = 0"
    by (simp add: shutdown_def)
  have 3: "format opts = ''json'' \<longrightarrow>
      fst (shutdown E opts s) =
        JsonFile (json_of E opts (result s)) #
        (if length (errors (result s)) > 0 then [ErrorsFile (errors (result s))] else [])"
    by (simp add: shutdown_def saveResults_def)
  have 4: "json_pages (json_of E opts (result s)) = pages (result s)"
    "json_errors (json_of E opts (result s)) = errors (result s)"
    "json_stats (json_of E opts (result s)) = stats (result s)"
    by (simp_all add: json_of_def)
  have 5: "endTime (result (crawl E opts s)) \<noteq> None"
    "duration (stats (result (crawl E opts s))) \<noteq> None"
    by (simp_all add: crawl_def Let_def finalize_def)
  from 1 2 3 4 5 show ?thesis by blast
qed

theorem C6_shutdown_skips_finalize_witness:
  "running site_platform site_options (new_WebCrawler site_platform site_options)
     (the (crawl_step site_platform site_options
        (seed site_platform site_options (new_WebCrawler site_platform site_options)))) \<and>
   format site_options = ''json'' \<and>
   map url (pages (result (the (crawl_step site_platform site_options
        (seed site_platform site_options (new_WebCrawler site_platform site_options))))))
     = [''http://a.com''] \<and>
   map url (queue (frontier (the (crawl_step site_platform site_options
        (seed site_platform site_options (new_WebCrawler site_platform site_options))))))
     = [''http://a.com/b'', ''http://a.com/c''] \<and>
   errors (result (the (crawl_step site_platform site_options
        (seed site_platform site_options (new_WebCrawler site_platform site_options))))) = [] \<and>
   endTime (result (the (crawl_step site_platform site_options
        (seed site_platform site_options (new_WebCrawler site_platform site_options))))) = None \<and>
   json_duration (json_crawl (json_of site_platform site_options
      (result (the (crawl_step site_platform site_options
        (seed site_platform site_options (new_WebCrawler site_platform site_options)))))))
     = ''NaNs'' \<and>
   shutdown site_platform site_options
     (the (crawl_step site_platform site_options
        (seed site_platform site_options (new_WebCrawler site_platform site_options))))
     = ([JsonFile (json_of site_platform site_options
          (result (the (crawl_step site_platform site_options
             (seed site_platform site_options (new_WebCrawler site_platform site_options))))))], 0)"
proof -
  let ?s0 = "new_WebCrawler site_platform site_options"
  let ?s1 = "the (crawl_step site_platform site_options (seed site_platform site_options ?s0))"
  have "crawl_step site_platform site_options (seed site_platform site_options ?s0) \<noteq> None"
    by code_simp
  then have "crawl_step site_platform site_options (seed site_platform site_options ?s0) = Some ?s1"
    by simp
  with running.seeded have r: "running site_platform site_options ?s0 ?s1"
    by (rule running.stepped)
  have f: "format site_options = ''json''"
    by (simp add: site_options_def config_js_def)
  have p: "map url (pages (result ?s1)) = [''http://a.com'']"
    by code_simp
  have q: "map url (queue (frontier ?s1)) = [''http://a.com/b'', ''http://a.com/c'']"
    by code_simp
  have e: "errors (result ?s1) = []"
    by code_simp
  note T = C6_shutdown_skips_finalize [of site_platform site_options ?s1]
  from T [THEN conjunct1, THEN mp, OF r]
  have 1: "endTime (result ?s1) = None"
    "json_duration (json_crawl (json_of site_platform site_options (result ?s1))) = ''NaNs''"
    by simp_all
  from T [THEN conjunct2, THEN conjunct1] T [THEN conjunct2, THEN conjunct2, THEN conjunct1, THEN mp, OF f] e
  have 2: "shutdown site_platform site_options ?s1
           = ([JsonFile (json_of site_platform site_options (result ?s1))], 0)"
    by (simp add: prod_eq_iff)
  from r f p q e 1 2 show ?thesis by (intro conjI)
qed

end
